theory Spec2Isabelle
  imports Main
begin

section \<open>The flat map of \<^verbatim>\<open>flat_map.h\<close>\<close>

text \<open>
  \<^verbatim>\<open>flat_map<K, V, Comp, Allocator>\<close> has one data member, \<^verbatim>\<open>m_data\<close>, a
  \<^verbatim>\<open>std::vector<std::pair<K, V>>\<close>. The comparator \<^verbatim>\<open>Comp\<close> is a template parameter and
  is passed here as \<open>lt\<close> (\<open>lt a b\<close>: key \<open>a\<close> is ordered before key \<open>b\<close>). Iterators are
  random-access iterators of the vector and are modelled by their index; \<^verbatim>\<open>end()\<close> is the
  index \<open>size\<close>.
\<close>

subsection \<open>The vector\<close>

text \<open>
  A vector is its element sequence together with the number of allocated slots that hold no
  element, so \<^verbatim>\<open>capacity()\<close> is \<open>size + unused\<close> and \<^verbatim>\<open>size() <= capacity()\<close> holds by
  construction.
\<close>

record 'a vector =
  elems :: "'a list"
  unused :: nat

definition size_v :: "'a vector \<Rightarrow> nat" where
  "size_v m = length (elems m)"

definition capacity :: "'a vector \<Rightarrow> nat" where
  "capacity m = length (elems m) + unused m"

text \<open>
  An exception leaves the object it interrupted in some state, which the caller sees; an
  outcome is therefore either a returned value or a raised error, each with the vector as
  it is at that moment.
\<close>

datatype error = OutOfRange | ConstructionFailure

datatype ('r, 's) outcome = Done 'r 's | Raise error 's

fun state_after :: "('r, 's) outcome \<Rightarrow> 's" where
  "state_after (Done r s) = s"
| "state_after (Raise e s) = s"

text \<open>
  How a full vector grows is left to the library: \<open>grow c\<close> is the capacity it asks for when
  the capacity is \<open>c\<close>, and it gets room for the new element at least. Constructing the
  stored element from the argument \<open>x\<close> throws when \<open>poison x\<close>; the vector constructs the
  new element before it moves any other, so a throw leaves it as it was.
\<close>

definition vec_emplace ::
  "(nat \<Rightarrow> nat) \<Rightarrow> ('a \<Rightarrow> bool) \<Rightarrow> 'a vector \<Rightarrow> nat \<Rightarrow> 'a \<Rightarrow> (nat, 'a vector) outcome" where
  "vec_emplace grow poison m pos x =
     (if poison x then Raise ConstructionFailure m
      else Done pos
        \<lparr> elems = take pos (elems m) @ x # drop pos (elems m),
          unused = (if unused m = 0
                    then max (grow (capacity m)) (capacity m + 1) - (capacity m + 1)
                    else unused m - 1) \<rparr>)"

definition vec_emplace_back ::
  "(nat \<Rightarrow> nat) \<Rightarrow> ('a \<Rightarrow> bool) \<Rightarrow> 'a vector \<Rightarrow> 'a \<Rightarrow> (unit, 'a vector) outcome" where
  "vec_emplace_back grow poison m x =
     (case vec_emplace grow poison m (size_v m) x of
        Raise e m' \<Rightarrow> Raise e m'
      | Done pos m' \<Rightarrow> Done () m')"

text \<open>\<^verbatim>\<open>pop_back\<close> on an empty vector is undefined in C++; the model leaves it empty.\<close>

definition vec_pop_back :: "'a vector \<Rightarrow> 'a vector" where
  "vec_pop_back m =
     (if elems m = [] then m
      else \<lparr> elems = butlast (elems m), unused = unused m + 1 \<rparr>)"

text \<open>
  \<^verbatim>\<open>erase(first, last)\<close> needs \<open>first \<le> last \<le> size\<close>, and \<^verbatim>\<open>erase(it)\<close> a
  dereferenceable \<open>it\<close>; elsewhere C++ leaves the behaviour undefined and the model leaves
  the vector unchanged.
\<close>

definition vec_erase_range :: "'a vector \<Rightarrow> nat \<Rightarrow> nat \<Rightarrow> nat \<times> 'a vector" where
  "vec_erase_range m first_it last_it =
     (if first_it \<le> last_it \<and> last_it \<le> size_v m
      then (first_it, \<lparr> elems = take first_it (elems m) @ drop last_it (elems m),
                        unused = unused m + (last_it - first_it) \<rparr>)
      else (first_it, m))"

definition vec_erase :: "'a vector \<Rightarrow> nat \<Rightarrow> nat \<times> 'a vector" where
  "vec_erase m pos = (if pos < size_v m then vec_erase_range m pos (pos + 1) else (pos, m))"

definition vec_clear :: "'a vector \<Rightarrow> 'a vector" where
  "vec_clear m = \<lparr> elems = [], unused = capacity m \<rparr>"

subsection \<open>The algorithms of the standard library\<close>

text \<open>
  \<^verbatim>\<open>std::lower_bound(first, last, value, comp)\<close>: the binary search; \<open>below e\<close> is
  \<^verbatim>\<open>comp(e, value)\<close>. The search looks at \<open>len\<close> elements from index \<open>first\<close> on.
\<close>

function lower_bound_loop :: "('a \<Rightarrow> bool) \<Rightarrow> 'a list \<Rightarrow> nat \<Rightarrow> nat \<Rightarrow> nat" where
  "lower_bound_loop below xs first len =
     (if len = 0 then first
      else let half = len div 2; middle = first + half
           in if below (xs ! middle)
              then lower_bound_loop below xs (middle + 1) (len - half - 1)
              else lower_bound_loop below xs first half)"
  by pat_completeness auto
termination
  by (relation "measure (\<lambda>(below, xs, first, len). len)") auto

definition std_lower_bound :: "('a \<Rightarrow> 'b \<Rightarrow> bool) \<Rightarrow> 'a list \<Rightarrow> 'b \<Rightarrow> nat" where
  "std_lower_bound cmp xs v = lower_bound_loop (\<lambda>e. cmp e v) xs 0 (length xs)"

text \<open>
  \<^verbatim>\<open>std::stable_sort\<close>: a sort that keeps the input order of elements none of which is
  ordered before the other. Every such sort returns the same sequence; insertion from the
  right is the one written here.
\<close>

fun insert_sorted :: "('a \<Rightarrow> 'a \<Rightarrow> bool) \<Rightarrow> 'a \<Rightarrow> 'a list \<Rightarrow> 'a list" where
  "insert_sorted cmp x [] = [x]"
| "insert_sorted cmp x (y # ys) =
     (if cmp y x then y # insert_sorted cmp x ys else x # y # ys)"

fun stable_sort :: "('a \<Rightarrow> 'a \<Rightarrow> bool) \<Rightarrow> 'a list \<Rightarrow> 'a list" where
  "stable_sort cmp [] = []"
| "stable_sort cmp (x # xs) = insert_sorted cmp x (stable_sort cmp xs)"

text \<open>
  \<^verbatim>\<open>std::inplace_merge\<close>: the stable merge of two sorted ranges; of two elements none of
  which is ordered before the other, the one of the first range comes first.
\<close>

fun inplace_merge :: "('a \<Rightarrow> 'a \<Rightarrow> bool) \<Rightarrow> 'a list \<Rightarrow> 'a list \<Rightarrow> 'a list" where
  "inplace_merge cmp [] ys = ys"
| "inplace_merge cmp xs [] = xs"
| "inplace_merge cmp (x # xs) (y # ys) =
     (if cmp y x then y # inplace_merge cmp (x # xs) ys
      else x # inplace_merge cmp xs (y # ys))"

text \<open>
  \<^verbatim>\<open>std::unique(first, last, pred)\<close> keeps the first element and then every element \<open>x\<close>
  with \<^verbatim>\<open>!pred(kept, x)\<close>, \<open>kept\<close> being the element kept last. It returns the end of the
  kept elements; what lies behind is erased by the caller, so the model is the kept part.
\<close>

fun unique_from :: "('a \<Rightarrow> 'a \<Rightarrow> bool) \<Rightarrow> 'a \<Rightarrow> 'a list \<Rightarrow> 'a list" where
  "unique_from pred kept [] = []"
| "unique_from pred kept (x # xs) =
     (if pred kept x then unique_from pred kept xs else x # unique_from pred x xs)"

fun unique :: "('a \<Rightarrow> 'a \<Rightarrow> bool) \<Rightarrow> 'a list \<Rightarrow> 'a list" where
  "unique pred [] = []"
| "unique pred (x # xs) = x # unique_from pred x xs"

definition not2 :: "('a \<Rightarrow> 'a \<Rightarrow> bool) \<Rightarrow> 'a \<Rightarrow> 'a \<Rightarrow> bool" where
  "not2 cmp a b = (\<not> cmp a b)"

subsection \<open>Comparators and lookup\<close>

type_synonym ('k, 'v) flat_map = "('k \<times> 'v) vector"

definition value_compare :: "('k \<Rightarrow> 'k \<Rightarrow> bool) \<Rightarrow> 'k \<times> 'v \<Rightarrow> 'k \<times> 'v \<Rightarrow> bool" where
  "value_compare lt lhs rhs = lt (fst lhs) (fst rhs)"

text \<open>\<^verbatim>\<open>KeyOrValueCompare\<close>, entry against key; the other overloads are written inline.\<close>

definition entry_key_compare :: "('k \<Rightarrow> 'k \<Rightarrow> bool) \<Rightarrow> 'k \<times> 'v \<Rightarrow> 'k \<Rightarrow> bool" where
  "entry_key_compare lt lhs rhs = lt (fst lhs) rhs"

definition lower_bound :: "('k \<Rightarrow> 'k \<Rightarrow> bool) \<Rightarrow> ('k, 'v) flat_map \<Rightarrow> 'k \<Rightarrow> nat" where
  "lower_bound lt m key = std_lower_bound (entry_key_compare lt) (elems m) key"

definition binary_find :: "('k \<Rightarrow> 'k \<Rightarrow> bool) \<Rightarrow> ('k \<times> 'v) list \<Rightarrow> 'k \<Rightarrow> nat" where
  "binary_find lt xs key =
     (let lb = std_lower_bound (entry_key_compare lt) xs key
      in if lb = length xs \<or> lt key (fst (xs ! lb)) then length xs else lb)"

definition find_key :: "('k \<Rightarrow> 'k \<Rightarrow> bool) \<Rightarrow> ('k, 'v) flat_map \<Rightarrow> 'k \<Rightarrow> nat" where
  "find_key lt m key = binary_find lt (elems m) key"

text \<open>
  \<^verbatim>\<open>at\<close> returns a reference to the \<^verbatim>\<open>second\<close> of the entry found: the model returns the
  position of the entry and the value there.
\<close>

definition at :: "('k \<Rightarrow> 'k \<Rightarrow> bool) \<Rightarrow> ('k, 'v) flat_map \<Rightarrow> 'k \<Rightarrow> (nat \<times> 'v, ('k, 'v) flat_map) outcome" where
  "at lt m key =
     (let found = binary_find lt (elems m) key
      in if found = size_v m then Raise OutOfRange m
         else Done (found, snd (elems m ! found)) m)"

subsection \<open>Insertion and removal of one entry\<close>

definition emplace ::
  "('k \<Rightarrow> 'k \<Rightarrow> bool) \<Rightarrow> (nat \<Rightarrow> nat) \<Rightarrow> ('k \<times> 'v \<Rightarrow> bool) \<Rightarrow> ('k, 'v) flat_map \<Rightarrow> 'k \<times> 'v
     \<Rightarrow> (nat \<times> bool, ('k, 'v) flat_map) outcome" where
  "emplace lt grow poison m x =
     (let lb = std_lower_bound (entry_key_compare lt) (elems m) (fst x)
      in if lb = size_v m \<or> lt (fst x) (fst (elems m ! lb))
         then (case vec_emplace grow poison m lb x of
                 Raise e m' \<Rightarrow> Raise e m'
               | Done pos m' \<Rightarrow> Done (pos, True) m')
         else Done (lb, False) m)"

text \<open>
  \<^verbatim>\<open>emplace()\<close> is \<^verbatim>\<open>return emplace(value_type());\<close>: the argument \<^verbatim>\<open>value_type()\<close>, the
  pair \<open>(dk, dv)\<close> of the default key and the default value, is built before \<^verbatim>\<open>emplace\<close>
  is entered, so its construction can throw before any lookup, whether the default key is
  stored or not. Once it is built, \<^verbatim>\<open>emplace\<close> runs on it.
\<close>

definition emplace_default ::
  "('k \<Rightarrow> 'k \<Rightarrow> bool) \<Rightarrow> (nat \<Rightarrow> nat) \<Rightarrow> ('k \<times> 'v \<Rightarrow> bool) \<Rightarrow> 'k \<Rightarrow> 'v \<Rightarrow> ('k, 'v) flat_map
     \<Rightarrow> (nat \<times> bool, ('k, 'v) flat_map) outcome" where
  "emplace_default lt grow poison dk dv m =
     (if poison (dk, dv) then Raise ConstructionFailure m
      else emplace lt grow poison m (dk, dv))"

definition first_of :: "('a \<times> 'b, 's) outcome \<Rightarrow> ('a, 's) outcome" where
  "first_of r = (case r of Raise e m \<Rightarrow> Raise e m | Done p m \<Rightarrow> Done (fst p) m)"

definition emplace_hint ::
  "('k \<Rightarrow> 'k \<Rightarrow> bool) \<Rightarrow> (nat \<Rightarrow> nat) \<Rightarrow> ('k \<times> 'v \<Rightarrow> bool) \<Rightarrow> ('k, 'v) flat_map \<Rightarrow> nat \<Rightarrow> 'k \<times> 'v
     \<Rightarrow> (nat, ('k, 'v) flat_map) outcome" where
  "emplace_hint lt grow poison m hint x =
     (if hint = size_v m \<or> lt (fst x) (fst (elems m ! hint))
      then (if hint = 0 \<or> lt (fst (elems m ! (hint - 1))) (fst x)
            then vec_emplace grow poison m hint x
            else first_of (emplace lt grow poison m x))
      else if \<not> lt (fst (elems m ! hint)) (fst x) then Done hint m
      else first_of (emplace lt grow poison m x))"

text \<open>
  \<^verbatim>\<open>operator[]\<close> returns a reference to the value of the entry; the model returns the
  position of that entry. \<open>dv\<close> is \<^verbatim>\<open>mapped_type()\<close>.
\<close>

definition subscript ::
  "('k \<Rightarrow> 'k \<Rightarrow> bool) \<Rightarrow> (nat \<Rightarrow> nat) \<Rightarrow> ('k \<times> 'v \<Rightarrow> bool) \<Rightarrow> 'v \<Rightarrow> ('k, 'v) flat_map \<Rightarrow> 'k
     \<Rightarrow> (nat, ('k, 'v) flat_map) outcome" where
  "subscript lt grow poison dv m key =
     (let lower = lower_bound lt m key
      in if lower = size_v m \<or> lt key (fst (elems m ! lower))
         then vec_emplace grow poison m lower (key, dv)
         else Done lower m)"

definition erase :: "('k, 'v) flat_map \<Rightarrow> nat \<Rightarrow> nat \<times> ('k, 'v) flat_map" where
  "erase m it = vec_erase m it"

definition erase_key :: "('k \<Rightarrow> 'k \<Rightarrow> bool) \<Rightarrow> ('k, 'v) flat_map \<Rightarrow> 'k \<Rightarrow> nat \<times> ('k, 'v) flat_map" where
  "erase_key lt m key =
     (let found = find_key lt m key
      in if found = size_v m then (0, m) else (1, snd (erase m found)))"

definition erase_range :: "('k, 'v) flat_map \<Rightarrow> nat \<Rightarrow> nat \<Rightarrow> nat \<times> ('k, 'v) flat_map" where
  "erase_range m first_it last_it = vec_erase_range m first_it last_it"

definition clear :: "('k, 'v) flat_map \<Rightarrow> ('k, 'v) flat_map" where
  "clear m = vec_clear m"

subsection \<open>Insertion of a range\<close>

text \<open>
  The input range \<^verbatim>\<open>[begin, end)\<close> is the list of its elements; advancing \<^verbatim>\<open>begin\<close>
  drops the head. Each loop of \<^verbatim>\<open>insert(It begin, It end)\<close> is a function of its own and
  returns the input that is left. \<open>insert_pass\<close> is the body of the function up to its
  last line: it returns \<open>None\<close> where the source returns early and \<open>Some rest\<close> where it
  calls itself on the rest.
\<close>

text \<open>
  \<^verbatim>\<open>for (; begin != end && size() == capacity(); ++begin) emplace(*begin);\<close>
\<close>

fun emplace_while_full ::
  "('k \<Rightarrow> 'k \<Rightarrow> bool) \<Rightarrow> (nat \<Rightarrow> nat) \<Rightarrow> ('k \<times> 'v \<Rightarrow> bool) \<Rightarrow> ('k, 'v) flat_map \<Rightarrow> ('k \<times> 'v) list
     \<Rightarrow> (('k \<times> 'v) list, ('k, 'v) flat_map) outcome" where
  "emplace_while_full lt grow poison m [] = Done [] m"
| "emplace_while_full lt grow poison m (x # xs) =
     (if size_v m = capacity m
      then (case emplace lt grow poison m x of
              Raise e m' \<Rightarrow> Raise e m'
            | Done r m' \<Rightarrow> emplace_while_full lt grow poison m' xs)
      else Done (x # xs) m)"

text \<open>
  \<^verbatim>\<open>for (size_t i = capacity(); i > size_before && begin != end; --i, ++begin)\<close>
  \<^verbatim>\<open>m_data.emplace_back(*begin);\<close> An exception leaves the loop with the elements
  appended so far.
\<close>

fun append_loop ::
  "(nat \<Rightarrow> nat) \<Rightarrow> ('a \<Rightarrow> bool) \<Rightarrow> 'a vector \<Rightarrow> nat \<Rightarrow> nat \<Rightarrow> 'a list \<Rightarrow> ('a list, 'a vector) outcome" where
  "append_loop grow poison m i size_before [] = Done [] m"
| "append_loop grow poison m i size_before (x # xs) =
     (if i > size_before
      then (case vec_emplace_back grow poison m x of
              Raise e m' \<Rightarrow> Raise e m'
            | Done u m' \<Rightarrow> append_loop grow poison m' (i - 1) size_before xs)
      else Done (x # xs) m)"

text \<open>
  The loop of the catch block:
  \<^verbatim>\<open>for (size_t i = m_data.size(); i > size_before; --i) m_data.pop_back();\<close>
\<close>

fun pop_loop :: "'a vector \<Rightarrow> nat \<Rightarrow> nat \<Rightarrow> 'a vector" where
  "pop_loop m 0 size_before = m"
| "pop_loop m (Suc i) size_before =
     (if Suc i > size_before then pop_loop (vec_pop_back m) i size_before else m)"

text \<open>The try block with its catch block, which rethrows after the rollback.\<close>

definition append_batch ::
  "(nat \<Rightarrow> nat) \<Rightarrow> ('a \<Rightarrow> bool) \<Rightarrow> 'a vector \<Rightarrow> 'a list \<Rightarrow> ('a list, 'a vector) outcome" where
  "append_batch grow poison m xs =
     (let size_before = size_v m
      in case append_loop grow poison m (capacity m) size_before xs of
           Raise e m' \<Rightarrow> Raise e (pop_loop m' (size_v m') size_before)
         | Done rest m' \<Rightarrow> Done rest m')"

text \<open>
  \<^verbatim>\<open>std::stable_sort\<close> of the appended part, \<^verbatim>\<open>std::inplace_merge\<close> with the part before
  it, and \<^verbatim>\<open>m_data.erase(std::unique(..., std::not2(comp)), std::end(m_data))\<close>. What
  \<^verbatim>\<open>std::unique\<close> leaves behind the kept elements is unspecified and erased at once; the
  model leaves there what the merge had put there.
\<close>

definition merge_batch :: "('k \<Rightarrow> 'k \<Rightarrow> bool) \<Rightarrow> ('k, 'v) flat_map \<Rightarrow> nat \<Rightarrow> ('k, 'v) flat_map" where
  "merge_batch lt m size_before =
     (let cmp = value_compare lt;
          sorted_tail = stable_sort cmp (drop size_before (elems m));
          merged = inplace_merge cmp (take size_before (elems m)) sorted_tail;
          kept = unique (not2 cmp) merged;
          m' = m \<lparr> elems := kept @ drop (length kept) merged \<rparr>
      in snd (vec_erase_range m' (length kept) (size_v m')))"

text \<open>
  The loop run when the size is what it was before the batch:
  \<^verbatim>\<open>for (; begin != end; ++begin) { if (emplace(*begin).second) { ++begin; break; } }\<close>
\<close>

fun emplace_until_inserted ::
  "('k \<Rightarrow> 'k \<Rightarrow> bool) \<Rightarrow> (nat \<Rightarrow> nat) \<Rightarrow> ('k \<times> 'v \<Rightarrow> bool) \<Rightarrow> ('k, 'v) flat_map \<Rightarrow> ('k \<times> 'v) list
     \<Rightarrow> (('k \<times> 'v) list, ('k, 'v) flat_map) outcome" where
  "emplace_until_inserted lt grow poison m [] = Done [] m"
| "emplace_until_inserted lt grow poison m (x # xs) =
     (case emplace lt grow poison m x of
        Raise e m' \<Rightarrow> Raise e m'
      | Done r m' \<Rightarrow> if snd r then Done xs m' else emplace_until_inserted lt grow poison m' xs)"

definition insert_pass ::
  "('k \<Rightarrow> 'k \<Rightarrow> bool) \<Rightarrow> (nat \<Rightarrow> nat) \<Rightarrow> ('k \<times> 'v \<Rightarrow> bool) \<Rightarrow> ('k, 'v) flat_map \<Rightarrow> ('k \<times> 'v) list
     \<Rightarrow> (('k \<times> 'v) list option, ('k, 'v) flat_map) outcome" where
  "insert_pass lt grow poison m xs =
     (case emplace_while_full lt grow poison m xs of
        Raise e m1 \<Rightarrow> Raise e m1
      | Done xs1 m1 \<Rightarrow>
          if xs1 = [] then Done None m1
          else let size_before = size_v m1
               in (case append_batch grow poison m1 xs1 of
                     Raise e m2 \<Rightarrow> Raise e m2
                   | Done xs2 m2 \<Rightarrow>
                       let m3 = merge_batch lt m2 size_before
                       in (case (if size_v m3 = size_before
                                 then emplace_until_inserted lt grow poison m3 xs2
                                 else Done xs2 m3) of
                             Raise e m4 \<Rightarrow> Raise e m4
                           | Done xs4 m4 \<Rightarrow> Done (Some xs4) m4)))"

text \<open>
  What each loop leaves of the input. A pass that ends in the recursive call has found an
  unused slot after its first loop and has appended one element at least; the termination
  of \<open>insert_range\<close> rests on this.
\<close>

lemma emplace_while_full_rest:
  "emplace_while_full lt grow poison m xs = Done xs1 m1 \<Longrightarrow>
     length xs1 \<le> length xs \<and> (xs1 \<noteq> [] \<longrightarrow> 0 < unused m1)"
proof (induction xs arbitrary: m)
  case Nil
  then show ?case by simp
next
  case (Cons x xs)
  show ?case
  proof (cases "size_v m = capacity m")
    case True
    with Cons.prems obtain r m' where "emplace_while_full lt grow poison m' xs = Done xs1 m1"
      by (auto split: outcome.splits)
    from Cons.IH[OF this] show ?thesis by simp
  next
    case False
    with Cons.prems show ?thesis by (auto simp: size_v_def capacity_def)
  qed
qed

lemma append_loop_rest:
  "append_loop grow poison m i size_before xs = Done xs2 m2 \<Longrightarrow>
     length xs2 \<le> length xs \<and> (size_before < i \<and> xs \<noteq> [] \<longrightarrow> length xs2 < length xs)"
proof (induction xs arbitrary: m i)
  case Nil
  then show ?case by simp
next
  case (Cons x xs)
  show ?case
  proof (cases "size_before < i")
    case True
    with Cons.prems obtain u m' where "append_loop grow poison m' (i - 1) size_before xs = Done xs2 m2"
      by (auto split: outcome.splits)
    from Cons.IH[OF this] show ?thesis by simp
  next
    case False
    with Cons.prems show ?thesis by auto
  qed
qed

lemma emplace_until_inserted_rest:
  "emplace_until_inserted lt grow poison m xs = Done xs4 m4 \<Longrightarrow> length xs4 \<le> length xs"
proof (induction xs arbitrary: m)
  case Nil
  then show ?case by simp
next
  case (Cons x xs)
  show ?case
  proof (cases "emplace lt grow poison m x")
    case (Done r m')
    show ?thesis
    proof (cases "snd r")
      case True
      with Done Cons.prems show ?thesis by simp
    next
      case False
      with Done Cons.prems have "emplace_until_inserted lt grow poison m' xs = Done xs4 m4"
        by simp
      from Cons.IH[OF this] show ?thesis by simp
    qed
  next
    case (Raise e m')
    with Cons.prems show ?thesis by simp
  qed
qed

lemma insert_pass_consumes:
  assumes "insert_pass lt grow poison m xs = Done (Some xs') m'"
  shows "length xs' < length xs"
proof -
  from assms obtain xs1 m1 where p1: "emplace_while_full lt grow poison m xs = Done xs1 m1"
    and ne: "xs1 \<noteq> []"
    by (auto simp: insert_pass_def split: outcome.splits if_splits)
  from assms p1 ne obtain xs2 m2 where p2: "append_batch grow poison m1 xs1 = Done xs2 m2"
    by (auto simp: insert_pass_def Let_def split: outcome.splits if_splits)
  from assms p1 ne p2 have p4:
    "emplace_until_inserted lt grow poison (merge_batch lt m2 (size_v m1)) xs2 = Done xs' m' \<or> xs' = xs2"
    by (auto simp: insert_pass_def Let_def split: outcome.splits if_splits)
  from p2 have "append_loop grow poison m1 (capacity m1) (size_v m1) xs1 = Done xs2 m2"
    by (auto simp: append_batch_def Let_def split: outcome.splits)
  from append_loop_rest[OF this] emplace_while_full_rest[OF p1] ne
  have "length xs2 < length xs"
    by (simp add: capacity_def size_v_def)
  moreover from p4 have "length xs' \<le> length xs2"
    using emplace_until_inserted_rest by blast
  ultimately show ?thesis by simp
qed

text \<open>\<^verbatim>\<open>insert(It begin, It end)\<close>: a pass, and the call of itself on the input left.\<close>

function insert_range ::
  "('k \<Rightarrow> 'k \<Rightarrow> bool) \<Rightarrow> (nat \<Rightarrow> nat) \<Rightarrow> ('k \<times> 'v \<Rightarrow> bool) \<Rightarrow> ('k, 'v) flat_map \<Rightarrow> ('k \<times> 'v) list
     \<Rightarrow> (unit, ('k, 'v) flat_map) outcome" where
  "insert_range lt grow poison m xs =
     (case insert_pass lt grow poison m xs of
        Raise e m' \<Rightarrow> Raise e m'
      | Done None m' \<Rightarrow> Done () m'
      | Done (Some xs') m' \<Rightarrow> insert_range lt grow poison m' xs')"
  by pat_completeness auto
termination
  by (relation "measure (\<lambda>(lt, grow, poison, m, xs). length xs)")
     (auto dest: insert_pass_consumes)

text \<open>
  The same iteration with a bound on the number of passes: \<open>None\<close> when the passes allowed
  do not suffice.
\<close>

fun insert_range_fuel ::
  "nat \<Rightarrow> ('k \<Rightarrow> 'k \<Rightarrow> bool) \<Rightarrow> (nat \<Rightarrow> nat) \<Rightarrow> ('k \<times> 'v \<Rightarrow> bool) \<Rightarrow> ('k, 'v) flat_map
     \<Rightarrow> ('k \<times> 'v) list \<Rightarrow> (unit, ('k, 'v) flat_map) outcome option" where
  "insert_range_fuel 0 lt grow poison m xs = None"
| "insert_range_fuel (Suc n) lt grow poison m xs =
     (case insert_pass lt grow poison m xs of
        Raise e m' \<Rightarrow> Some (Raise e m')
      | Done None m' \<Rightarrow> Some (Done () m')
      | Done (Some xs') m' \<Rightarrow> insert_range_fuel n lt grow poison m' xs')"

subsection \<open>The other overloads, and the public mutations as one type\<close>

text \<open>
  \<^verbatim>\<open>insert(value)\<close>, \<^verbatim>\<open>insert(hint, value)\<close> and \<^verbatim>\<open>insert(initializer_list)\<close>
  forward to the functions above.
\<close>

definition insert_value ::
  "('k \<Rightarrow> 'k \<Rightarrow> bool) \<Rightarrow> (nat \<Rightarrow> nat) \<Rightarrow> ('k \<times> 'v \<Rightarrow> bool) \<Rightarrow> ('k, 'v) flat_map \<Rightarrow> 'k \<times> 'v
     \<Rightarrow> (nat \<times> bool, ('k, 'v) flat_map) outcome" where
  "insert_value lt grow poison m v = emplace lt grow poison m v"

definition insert_hint ::
  "('k \<Rightarrow> 'k \<Rightarrow> bool) \<Rightarrow> (nat \<Rightarrow> nat) \<Rightarrow> ('k \<times> 'v \<Rightarrow> bool) \<Rightarrow> ('k, 'v) flat_map \<Rightarrow> nat \<Rightarrow> 'k \<times> 'v
     \<Rightarrow> (nat, ('k, 'v) flat_map) outcome" where
  "insert_hint lt grow poison m hint v = emplace_hint lt grow poison m hint v"

definition insert_list ::
  "('k \<Rightarrow> 'k \<Rightarrow> bool) \<Rightarrow> (nat \<Rightarrow> nat) \<Rightarrow> ('k \<times> 'v \<Rightarrow> bool) \<Rightarrow> ('k, 'v) flat_map \<Rightarrow> ('k \<times> 'v) list
     \<Rightarrow> (unit, ('k, 'v) flat_map) outcome" where
  "insert_list lt grow poison m il = insert_range lt grow poison m il"

text \<open>
  \<^verbatim>\<open>emplace_hint(hint)\<close> is \<^verbatim>\<open>return emplace_hint(hint, value_type());\<close>: as in
  \<^verbatim>\<open>emplace()\<close>, the default entry is built, and may throw, before any comparison.
\<close>

definition emplace_hint_default ::
  "('k \<Rightarrow> 'k \<Rightarrow> bool) \<Rightarrow> (nat \<Rightarrow> nat) \<Rightarrow> ('k \<times> 'v \<Rightarrow> bool) \<Rightarrow> 'k \<Rightarrow> 'v \<Rightarrow> ('k, 'v) flat_map \<Rightarrow> nat
     \<Rightarrow> (nat, ('k, 'v) flat_map) outcome" where
  "emplace_hint_default lt grow poison dk dv m hint =
     (if poison (dk, dv) then Raise ConstructionFailure m
      else emplace_hint lt grow poison m hint (dk, dv))"

text \<open>
  A call of a public member function that changes the map, and the map it leaves, be it by
  a return or by an exception. Iterator arguments have to be iterators of the map:
  \<open>valid_mutation\<close> says which positions C++ allows.
\<close>

datatype ('k, 'v) mutation =
    Subscript 'k
  | Insert "'k \<times> 'v"
  | InsertHint nat "'k \<times> 'v"
  | InsertRange "('k \<times> 'v) list"
  | InsertList "('k \<times> 'v) list"
  | Emplace "'k \<times> 'v"
  | EmplaceDefault
  | EmplaceHint nat "'k \<times> 'v"
  | EmplaceHintDefault nat
  | Erase nat
  | EraseKey 'k
  | EraseRange nat nat
  | Clear

fun perform ::
  "('k \<Rightarrow> 'k \<Rightarrow> bool) \<Rightarrow> (nat \<Rightarrow> nat) \<Rightarrow> ('k \<times> 'v \<Rightarrow> bool) \<Rightarrow> 'k \<Rightarrow> 'v \<Rightarrow> ('k, 'v) flat_map
     \<Rightarrow> ('k, 'v) mutation \<Rightarrow> ('k, 'v) flat_map" where
  "perform lt grow poison dk dv m (Subscript key) = state_after (subscript lt grow poison dv m key)"
| "perform lt grow poison dk dv m (Insert v) = state_after (insert_value lt grow poison m v)"
| "perform lt grow poison dk dv m (InsertHint hint v) = state_after (insert_hint lt grow poison m hint v)"
| "perform lt grow poison dk dv m (InsertRange xs) = state_after (insert_range lt grow poison m xs)"
| "perform lt grow poison dk dv m (InsertList il) = state_after (insert_list lt grow poison m il)"
| "perform lt grow poison dk dv m (Emplace v) = state_after (emplace lt grow poison m v)"
| "perform lt grow poison dk dv m EmplaceDefault = state_after (emplace_default lt grow poison dk dv m)"
| "perform lt grow poison dk dv m (EmplaceHint hint v) = state_after (emplace_hint lt grow poison m hint v)"
| "perform lt grow poison dk dv m (EmplaceHintDefault hint) =
     state_after (emplace_hint_default lt grow poison dk dv m hint)"
| "perform lt grow poison dk dv m (Erase it) = snd (erase m it)"
| "perform lt grow poison dk dv m (EraseKey key) = snd (erase_key lt m key)"
| "perform lt grow poison dk dv m (EraseRange first_it last_it) = snd (erase_range m first_it last_it)"
| "perform lt grow poison dk dv m Clear = clear m"

fun valid_mutation :: "('k, 'v) flat_map \<Rightarrow> ('k, 'v) mutation \<Rightarrow> bool" where
  "valid_mutation m (InsertHint hint v) = (hint \<le> size_v m)"
| "valid_mutation m (EmplaceHint hint v) = (hint \<le> size_v m)"
| "valid_mutation m (EmplaceHintDefault hint) = (hint \<le> size_v m)"
| "valid_mutation m (Erase it) = (it < size_v m)"
| "valid_mutation m (EraseRange first_it last_it) = (first_it \<le> last_it \<and> last_it \<le> size_v m)"
| "valid_mutation m _ = True"

fun perform_all ::
  "('k \<Rightarrow> 'k \<Rightarrow> bool) \<Rightarrow> (nat \<Rightarrow> nat) \<Rightarrow> ('k \<times> 'v \<Rightarrow> bool) \<Rightarrow> 'k \<Rightarrow> 'v \<Rightarrow> ('k, 'v) flat_map
     \<Rightarrow> ('k, 'v) mutation list \<Rightarrow> ('k, 'v) flat_map" where
  "perform_all lt grow poison dk dv m [] = m"
| "perform_all lt grow poison dk dv m (c # cs) =
     perform_all lt grow poison dk dv (perform lt grow poison dk dv m c) cs"

fun valid_mutations ::
  "('k \<Rightarrow> 'k \<Rightarrow> bool) \<Rightarrow> (nat \<Rightarrow> nat) \<Rightarrow> ('k \<times> 'v \<Rightarrow> bool) \<Rightarrow> 'k \<Rightarrow> 'v \<Rightarrow> ('k, 'v) flat_map
     \<Rightarrow> ('k, 'v) mutation list \<Rightarrow> bool" where
  "valid_mutations lt grow poison dk dv m [] = True"
| "valid_mutations lt grow poison dk dv m (c # cs) =
     (valid_mutation m c \<and> valid_mutations lt grow poison dk dv (perform lt grow poison dk dv m c) cs)"

subsection \<open>Iterators and traversal\<close>

text \<open>
  \<^verbatim>\<open>begin()\<close> and \<^verbatim>\<open>end()\<close>, their const overloads, \<^verbatim>\<open>cbegin()\<close> and \<^verbatim>\<open>cend()\<close> return
  the iterators of \<^verbatim>\<open>m_data\<close>.
\<close>

definition begin_it :: "'a vector \<Rightarrow> nat" where
  "begin_it m = 0"

definition end_it :: "'a vector \<Rightarrow> nat" where
  "end_it m = size_v m"

definition begin_const :: "'a vector \<Rightarrow> nat" where
  "begin_const m = 0"

definition end_const :: "'a vector \<Rightarrow> nat" where
  "end_const m = size_v m"

definition cbegin :: "'a vector \<Rightarrow> nat" where
  "cbegin m = 0"

definition cend :: "'a vector \<Rightarrow> nat" where
  "cend m = size_v m"

text \<open>
  A reverse iterator is given by the position of the iterator it wraps, its base: it
  designates the element before the base, and incrementing it moves the base down.
  \<^verbatim>\<open>std::rbegin\<close> wraps \<^verbatim>\<open>end()\<close> and \<^verbatim>\<open>std::rend\<close> wraps \<^verbatim>\<open>begin()\<close>. The const overload
  of \<^verbatim>\<open>rend()\<close> returns \<^verbatim>\<open>std::rbegin(m_data)\<close> in the source, and so it does here.
\<close>

definition rbegin :: "'a vector \<Rightarrow> nat" where
  "rbegin m = size_v m"

definition rend :: "'a vector \<Rightarrow> nat" where
  "rend m = 0"

definition rbegin_const :: "'a vector \<Rightarrow> nat" where
  "rbegin_const m = size_v m"

definition rend_const :: "'a vector \<Rightarrow> nat" where
  "rend_const m = size_v m"

definition crbegin :: "'a vector \<Rightarrow> nat" where
  "crbegin m = size_v m"

definition crend :: "'a vector \<Rightarrow> nat" where
  "crend m = 0"

text \<open>
  The loop \<^verbatim>\<open>for (it = first; it != last; ++it)\<close> that visits \<^verbatim>\<open>*it\<close>, as the list of the
  entries visited; a loop that would step out of the vector, which C++ leaves undefined,
  stops there.
\<close>

function traverse :: "'a vector \<Rightarrow> nat \<Rightarrow> nat \<Rightarrow> 'a list" where
  "traverse m it last_it =
     (if it = last_it \<or> size_v m \<le> it then []
      else elems m ! it # traverse m (it + 1) last_it)"
  by pat_completeness auto
termination
  by (relation "measure (\<lambda>(m, it, last_it). size_v m - it)") auto

fun reverse_traverse :: "'a vector \<Rightarrow> nat \<Rightarrow> nat \<Rightarrow> 'a list" where
  "reverse_traverse m 0 last_base = []"
| "reverse_traverse m (Suc b) last_base =
     (if Suc b = last_base \<or> size_v m \<le> b then []
      else elems m ! b # reverse_traverse m b last_base)"

section \<open>Specification\<close>

text \<open>
  The comparator is assumed to be a strict weak ordering, as the standard library asks of
  \<^verbatim>\<open>Compare\<close>. Two keys are equivalent when none is ordered before the other.
  Invariant I1: every entry's key is ordered before the key of every later entry.
\<close>

definition strict_weak_order :: "('k \<Rightarrow> 'k \<Rightarrow> bool) \<Rightarrow> bool" where
  "strict_weak_order lt \<longleftrightarrow>
     (\<forall>a. \<not> lt a a) \<and> (\<forall>a b c. lt a b \<longrightarrow> lt b c \<longrightarrow> lt a c) \<and>
     (\<forall>a b c. lt a b \<longrightarrow> lt a c \<or> lt c b)"

definition equiv_key :: "('k \<Rightarrow> 'k \<Rightarrow> bool) \<Rightarrow> 'k \<Rightarrow> 'k \<Rightarrow> bool" where
  "equiv_key lt a b \<longleftrightarrow> \<not> lt a b \<and> \<not> lt b a"

definition I1 :: "('k \<Rightarrow> 'k \<Rightarrow> bool) \<Rightarrow> ('k \<times> 'v) list \<Rightarrow> bool" where
  "I1 lt xs = sorted_wrt (value_compare lt) xs"

definition has_key :: "('k \<Rightarrow> 'k \<Rightarrow> bool) \<Rightarrow> ('k \<times> 'v) list \<Rightarrow> 'k \<Rightarrow> bool" where
  "has_key lt xs k = (\<exists>e \<in> set xs. equiv_key lt (fst e) k)"

definition lookup :: "('k \<Rightarrow> 'k \<Rightarrow> bool) \<Rightarrow> ('k \<times> 'v) list \<Rightarrow> 'k \<Rightarrow> ('k \<times> 'v) option" where
  "lookup lt xs k = List.find (\<lambda>e. equiv_key lt (fst e) k) xs"

definition ascending :: "('k \<Rightarrow> 'k \<Rightarrow> bool) \<Rightarrow> ('k \<times> 'v) list \<Rightarrow> bool" where
  "ascending lt xs = sorted_wrt (\<lambda>a b. \<not> lt (fst b) (fst a)) xs"

definition key_below :: "('k \<Rightarrow> 'k \<Rightarrow> bool) \<Rightarrow> 'k \<Rightarrow> 'k \<times> 'v \<Rightarrow> bool" where
  "key_below lt k e = lt (fst e) k"

text \<open>
  The sequence after \<^verbatim>\<open>emplace\<close> of \<open>x\<close>: unchanged when an equivalent key is stored,
  else \<open>x\<close> stands behind the entries whose key is ordered before its key.
\<close>

definition ins :: "('k \<Rightarrow> 'k \<Rightarrow> bool) \<Rightarrow> 'k \<times> 'v \<Rightarrow> ('k \<times> 'v) list \<Rightarrow> ('k \<times> 'v) list" where
  "ins lt x xs =
     (if has_key lt xs (fst x) then xs
      else takeWhile (key_below lt (fst x)) xs @ x # dropWhile (key_below lt (fst x)) xs)"

text \<open>
  Calling \<^verbatim>\<open>emplace\<close> on each element of a sequence, one at a time and in input order: the
  behaviour the spec compares the insertion of a range with.
\<close>

fun emplace_each ::
  "('k \<Rightarrow> 'k \<Rightarrow> bool) \<Rightarrow> (nat \<Rightarrow> nat) \<Rightarrow> ('k \<times> 'v \<Rightarrow> bool) \<Rightarrow> ('k, 'v) flat_map \<Rightarrow> ('k \<times> 'v) list
     \<Rightarrow> (unit, ('k, 'v) flat_map) outcome" where
  "emplace_each lt grow poison m [] = Done () m"
| "emplace_each lt grow poison m (x # xs) =
     (case emplace lt grow poison m x of
        Raise e m' \<Rightarrow> Raise e m'
      | Done r m' \<Rightarrow> emplace_each lt grow poison m' xs)"

text \<open>The same on the entry sequence alone.\<close>

fun ins_each :: "('k \<Rightarrow> 'k \<Rightarrow> bool) \<Rightarrow> ('k \<times> 'v) list \<Rightarrow> ('k \<times> 'v) list \<Rightarrow> ('k \<times> 'v) list" where
  "ins_each lt xs [] = xs"
| "ins_each lt xs (c # cs) = ins_each lt (ins lt c xs) cs"

text \<open>
  \<open>prefix_done m xs rest m'\<close>: the elements of \<open>xs\<close> before \<open>rest\<close> have been emplaced one by
  one, none has thrown, and the map is \<open>m'\<close>.
\<close>

definition prefix_done ::
  "('k \<Rightarrow> 'k \<Rightarrow> bool) \<Rightarrow> (nat \<Rightarrow> nat) \<Rightarrow> ('k \<times> 'v \<Rightarrow> bool) \<Rightarrow> ('k, 'v) flat_map \<Rightarrow> ('k \<times> 'v) list
     \<Rightarrow> ('k \<times> 'v) list \<Rightarrow> ('k, 'v) flat_map \<Rightarrow> bool" where
  "prefix_done lt grow poison m xs rest m' \<longleftrightarrow>
     (\<exists>ys. xs = ys @ rest \<and> emplace_each lt grow poison m ys = Done () m')"

text \<open>No two entries have equivalent keys.\<close>

definition distinct_keys :: "('k \<Rightarrow> 'k \<Rightarrow> bool) \<Rightarrow> ('k \<times> 'v) list \<Rightarrow> bool" where
  "distinct_keys lt xs \<longleftrightarrow>
     (\<forall>i \<in> {..<length xs}. \<forall>j \<in> {..<length xs}.
        i \<noteq> j \<longrightarrow> \<not> equiv_key lt (fst (xs ! i)) (fst (xs ! j)))"

section \<open>Properties of the ordering and of lookup\<close>

lemma swo_irrefl: "strict_weak_order lt \<Longrightarrow> \<not> lt a a"
  by (simp add: strict_weak_order_def)

lemma swo_trans: "strict_weak_order lt \<Longrightarrow> lt a b \<Longrightarrow> lt b c \<Longrightarrow> lt a c"
  unfolding strict_weak_order_def by blast

lemma swo_cases: "strict_weak_order lt \<Longrightarrow> lt a b \<Longrightarrow> lt a c \<or> lt c b"
  unfolding strict_weak_order_def by blast

lemma swo_asym: "strict_weak_order lt \<Longrightarrow> lt a b \<Longrightarrow> \<not> lt b a"
  using swo_irrefl swo_trans by metis

lemma equiv_key_refl: "strict_weak_order lt \<Longrightarrow> equiv_key lt a a"
  by (simp add: equiv_key_def swo_irrefl)

lemma equiv_key_sym: "equiv_key lt a b \<Longrightarrow> equiv_key lt b a"
  by (simp add: equiv_key_def)

lemma equiv_key_trans:
  "strict_weak_order lt \<Longrightarrow> equiv_key lt a b \<Longrightarrow> equiv_key lt b c \<Longrightarrow> equiv_key lt a c"
  unfolding equiv_key_def using swo_cases by metis

lemma lt_equiv_right: "strict_weak_order lt \<Longrightarrow> lt a b \<Longrightarrow> equiv_key lt b c \<Longrightarrow> lt a c"
  unfolding equiv_key_def using swo_cases by metis

lemma lt_equiv_left: "strict_weak_order lt \<Longrightarrow> equiv_key lt a b \<Longrightarrow> lt b c \<Longrightarrow> lt a c"
  unfolding equiv_key_def using swo_cases by metis

lemma not_lt_trans:
  "strict_weak_order lt \<Longrightarrow> \<not> lt b a \<Longrightarrow> \<not> lt c b \<Longrightarrow> \<not> lt c a"
  using swo_cases by metis

lemma lt_not_lt_trans: "strict_weak_order lt \<Longrightarrow> lt a b \<Longrightarrow> \<not> lt c b \<Longrightarrow> lt a c"
  using swo_cases by metis

lemma not_lt_lt_trans: "strict_weak_order lt \<Longrightarrow> \<not> lt b a \<Longrightarrow> lt b c \<Longrightarrow> lt a c"
  using swo_cases by metis

lemma I1_ascending: "strict_weak_order lt \<Longrightarrow> I1 lt xs \<Longrightarrow> ascending lt xs"
  unfolding I1_def ascending_def value_compare_def
  by (erule sorted_wrt_mono_rel[rotated]) (simp add: swo_asym)

lemma find_append:
  "List.find P (xs @ ys) = (case List.find P xs of None \<Rightarrow> List.find P ys | Some x \<Rightarrow> Some x)"
  by (induction xs) auto

lemma lookup_Nil [simp]: "lookup lt [] k = None"
  by (simp add: lookup_def)

lemma lookup_Cons:
  "lookup lt (x # xs) k = (if equiv_key lt (fst x) k then Some x else lookup lt xs k)"
  by (simp add: lookup_def)

lemma lookup_append:
  "lookup lt (xs @ ys) k = (case lookup lt xs k of None \<Rightarrow> lookup lt ys k | Some x \<Rightarrow> Some x)"
  unfolding lookup_def by (rule find_append)

lemma lookup_None_iff: "lookup lt xs k = None \<longleftrightarrow> \<not> has_key lt xs k"
  by (auto simp: lookup_def has_key_def find_None_iff)

lemma lookup_Some_mem: "lookup lt xs k = Some e \<Longrightarrow> e \<in> set xs \<and> equiv_key lt (fst e) k"
  by (auto simp: lookup_def find_Some_iff)

text \<open>In a strictly ascending sequence every entry is the one found under its key.\<close>

lemma I1_lookup_self:
  assumes "strict_weak_order lt" "I1 lt xs" "e \<in> set xs"
  shows "lookup lt xs (fst e) = Some e"
  using assms(2,3)
proof (induction xs)
  case Nil
  then show ?case by simp
next
  case (Cons x xs)
  show ?case
  proof (cases "e = x")
    case True
    then show ?thesis by (simp add: lookup_Cons equiv_key_refl[OF assms(1)])
  next
    case False
    with Cons.prems have mem: "e \<in> set xs" and "lt (fst x) (fst e)" and "I1 lt xs"
      by (auto simp: I1_def value_compare_def)
    then have "\<not> equiv_key lt (fst x) (fst e)" by (simp add: equiv_key_def)
    with Cons.IH[OF \<open>I1 lt xs\<close> mem] show ?thesis by (simp add: lookup_Cons)
  qed
qed

lemma I1_same_set:
  assumes "strict_weak_order lt"
  shows "I1 lt xs \<Longrightarrow> I1 lt ys \<Longrightarrow> set xs = set ys \<Longrightarrow> xs = ys"
proof (induction xs arbitrary: ys)
  case Nil
  then show ?case by simp
next
  case (Cons x xs)
  then obtain y ys' where ys: "ys = y # ys'" by (cases ys) auto
  have xlt: "\<forall>e\<in>set xs. lt (fst x) (fst e)" and ylt: "\<forall>e\<in>set ys'. lt (fst y) (fst e)"
    using Cons.prems(1,2) ys by (auto simp: I1_def value_compare_def)
  have "x = y"
  proof (rule ccontr)
    assume ne: "x \<noteq> y"
    with Cons.prems(3) ys have "x \<in> set ys'" "y \<in> set xs" by auto
    with xlt ylt have "lt (fst x) (fst y)" "lt (fst y) (fst x)" by auto
    with swo_asym[OF assms] show False by blast
  qed
  have nx: "x \<notin> set xs" using xlt swo_irrefl[OF assms] by blast
  have ny: "y \<notin> set ys'" using ylt swo_irrefl[OF assms] by blast
  have "set xs = set ys'"
    using Cons.prems(3) ys \<open>x = y\<close> nx ny by auto
  moreover have "I1 lt xs" "I1 lt ys'" using Cons.prems(1,2) ys by (auto simp: I1_def)
  ultimately have "xs = ys'" using Cons.IH by blast
  with ys \<open>x = y\<close> show ?case by simp
qed

lemma I1_lookup_ext:
  assumes swo: "strict_weak_order lt" and "I1 lt xs" "I1 lt ys"
    and eq: "\<And>k. lookup lt xs k = lookup lt ys k"
  shows "xs = ys"
proof (rule I1_same_set[OF swo assms(2,3)])
  show "set xs = set ys"
  proof (intro equalityI subsetI)
    fix e assume "e \<in> set xs"
    from I1_lookup_self[OF swo assms(2) this] eq have "lookup lt ys (fst e) = Some e" by simp
    then show "e \<in> set ys" by (simp add: lookup_Some_mem)
  next
    fix e assume "e \<in> set ys"
    from I1_lookup_self[OF swo assms(3) this] eq have "lookup lt xs (fst e) = Some e" by simp
    then show "e \<in> set xs" by (simp add: lookup_Some_mem)
  qed
qed


subsection \<open>Sorting, merging and removing duplicates\<close>

lemma lookup_insert_sorted:
  assumes "strict_weak_order lt"
  shows "lookup lt (insert_sorted (value_compare lt) x ys) k = lookup lt (x # ys) k"
proof (induction ys)
  case Nil
  then show ?case by simp
next
  case (Cons y ys)
  show ?case
  proof (cases "lt (fst y) (fst x)")
    case True
    then have "\<not> (equiv_key lt (fst y) k \<and> equiv_key lt (fst x) k)"
      using equiv_key_trans[OF assms, of "fst y" k "fst x"] equiv_key_sym[of lt "fst x" k]
      by (auto simp: equiv_key_def)
    with True Cons.IH show ?thesis by (auto simp: lookup_Cons value_compare_def)
  next
    case False
    then show ?thesis by (simp add: value_compare_def)
  qed
qed

lemma set_insert_sorted: "set (insert_sorted cmp x ys) = insert x (set ys)"
  by (induction ys) auto

lemma ascending_insert_sorted:
  assumes "strict_weak_order lt"
  shows "ascending lt ys \<Longrightarrow> ascending lt (insert_sorted (value_compare lt) x ys)"
proof (induction ys)
  case Nil
  then show ?case by (simp add: ascending_def)
next
  case (Cons y ys)
  show ?case
  proof (cases "lt (fst y) (fst x)")
    case True
    with Cons show ?thesis
      using swo_asym[OF assms]
      by (auto simp: ascending_def value_compare_def set_insert_sorted)
  next
    case False
    have "\<not> lt (fst e) (fst x)" if "e \<in> set ys" for e
      using not_lt_trans[OF assms, of "fst y" "fst x" "fst e"] False Cons.prems that
      by (auto simp: ascending_def)
    with False Cons.prems show ?thesis
      by (auto simp: ascending_def value_compare_def)
  qed
qed

lemma ascending_stable_sort:
  "strict_weak_order lt \<Longrightarrow> ascending lt (stable_sort (value_compare lt) xs)"
  by (induction xs) (simp_all add: ascending_def[of lt "[]"] ascending_insert_sorted)

lemma lookup_stable_sort:
  "strict_weak_order lt \<Longrightarrow> lookup lt (stable_sort (value_compare lt) xs) k = lookup lt xs k"
  by (induction xs) (simp_all add: lookup_insert_sorted lookup_Cons)

lemma set_inplace_merge: "set (inplace_merge cmp xs ys) = set xs \<union> set ys"
  by (induction cmp xs ys rule: inplace_merge.induct) auto

lemma ascending_inplace_merge:
  fixes xs ys :: "('k \<times> 'v) list"
  assumes "strict_weak_order lt"
  shows "ascending lt xs \<Longrightarrow> ascending lt ys \<Longrightarrow>
         ascending lt (inplace_merge (value_compare lt) xs ys)"
proof (induction "value_compare lt :: 'k \<times> 'v \<Rightarrow> 'k \<times> 'v \<Rightarrow> bool" xs ys
    rule: inplace_merge.induct)
  case (1 ys)
  then show ?case by simp
next
  case (2 v va)
  then show ?case by simp
next
  case (3 x xs y ys)
  show ?case
  proof (cases "lt (fst y) (fst x)")
    case True
    have "\<not> lt (fst e) (fst y)" if "e \<in> set (x # xs)" for e
    proof -
      have "\<not> lt (fst e) (fst x)"
        using that "3.prems"(1) swo_irrefl[OF assms] by (auto simp: ascending_def)
      with True show ?thesis using swo_asym[OF assms] swo_cases[OF assms] by metis
    qed
    with True 3 show ?thesis
      by (auto simp: ascending_def value_compare_def set_inplace_merge)
  next
    case False
    have "\<not> lt (fst e) (fst x)" if "e \<in> set ys" for e
      using not_lt_trans[OF assms, of "fst y" "fst x" "fst e"] False "3.prems"(2) that
      by (auto simp: ascending_def)
    with False 3 show ?thesis
      by (auto simp: ascending_def value_compare_def set_inplace_merge)
  qed
qed

lemma lookup_inplace_merge:
  fixes xs ys :: "('k \<times> 'v) list"
  assumes "strict_weak_order lt"
  shows "ascending lt xs \<Longrightarrow> ascending lt ys \<Longrightarrow>
         lookup lt (inplace_merge (value_compare lt) xs ys) k = lookup lt (xs @ ys) k"
proof (induction "value_compare lt :: 'k \<times> 'v \<Rightarrow> 'k \<times> 'v \<Rightarrow> bool" xs ys
    rule: inplace_merge.induct)
  case (1 ys)
  then show ?case by simp
next
  case (2 v va)
  then show ?case by simp
next
  case (3 x xs y ys)
  have ax: "ascending lt xs" and ay: "ascending lt ys"
    using "3.prems" by (auto simp: ascending_def)
  show ?case
  proof (cases "lt (fst y) (fst x)")
    case True
    have ih: "lookup lt (inplace_merge (value_compare lt) (x # xs) ys) k = lookup lt ((x # xs) @ ys) k"
      using "3.hyps"(1) True "3.prems"(1) ay by (simp add: value_compare_def)
    show ?thesis
    proof (cases "equiv_key lt (fst y) k")
      case eq: True
      have "\<not> equiv_key lt (fst e) k" if "e \<in> set (x # xs)" for e
      proof -
        have "\<not> lt (fst e) (fst x)"
          using that "3.prems"(1) swo_irrefl[OF assms] by (auto simp: ascending_def)
        with True have "lt (fst y) (fst e)" using swo_cases[OF assms] by metis
        then have "lt k (fst e)" using lt_equiv_left[OF assms equiv_key_sym[OF eq]] by simp
        then show ?thesis by (simp add: equiv_key_def)
      qed
      then have none: "lookup lt (x # xs) k = None"
        unfolding lookup_None_iff has_key_def by blast
      have r: "lookup lt ((x # xs) @ y # ys) k = Some y"
        using eq by (subst lookup_append, subst none) (simp add: lookup_Cons)
      have "inplace_merge (value_compare lt) (x # xs) (y # ys)
              = y # inplace_merge (value_compare lt) (x # xs) ys"
        using True by (simp add: value_compare_def)
      then have "lookup lt (inplace_merge (value_compare lt) (x # xs) (y # ys)) k = Some y"
        using eq by (simp only: lookup_Cons if_True)
      with r show ?thesis by simp
    next
      case False
      with True ih show ?thesis
        by (simp add: value_compare_def lookup_Cons lookup_append split: option.splits)
    qed
  next
    case False
    have "lookup lt (inplace_merge (value_compare lt) xs (y # ys)) k = lookup lt (xs @ y # ys) k"
      using "3.hyps"(2) False ax "3.prems"(2) by (simp add: value_compare_def)
    with False show ?thesis by (simp add: value_compare_def lookup_Cons)
  qed
qed

lemma unique_from_step:
  "unique_from (not2 (value_compare lt)) kept (x # xs) =
     (if lt (fst kept) (fst x) then x # unique_from (not2 (value_compare lt)) x xs
      else unique_from (not2 (value_compare lt)) kept xs)"
  by (simp add: not2_def value_compare_def)

lemma unique_from_I1_lookup:
  assumes swo: "strict_weak_order lt"
  shows "ascending lt (kept # xs) \<Longrightarrow>
         I1 lt (kept # unique_from (not2 (value_compare lt)) kept xs) \<and>
         (\<forall>k. lookup lt (kept # unique_from (not2 (value_compare lt)) kept xs) k
              = lookup lt (kept # xs) k)"
proof (induction xs arbitrary: kept)
  case Nil
  then show ?case by (simp add: I1_def)
next
  case (Cons x xs)
  have nlt: "\<not> lt (fst x) (fst kept)" using Cons.prems by (simp add: ascending_def)
  show ?case
  proof (cases "lt (fst kept) (fst x)")
    case True
    have "ascending lt (x # xs)" using Cons.prems by (simp add: ascending_def)
    from Cons.IH[OF this]
    have i: "I1 lt (x # unique_from (not2 (value_compare lt)) x xs)"
      and l: "\<And>k. lookup lt (x # unique_from (not2 (value_compare lt)) x xs) k = lookup lt (x # xs) k"
      by auto
    have "lt (fst kept) (fst e)" if "e \<in> set (unique_from (not2 (value_compare lt)) x xs)" for e
      using i that True swo_trans[OF swo] by (auto simp: I1_def value_compare_def)
    with i True have "I1 lt (kept # x # unique_from (not2 (value_compare lt)) x xs)"
      by (auto simp: I1_def value_compare_def)
    moreover have "lookup lt (kept # x # unique_from (not2 (value_compare lt)) x xs) k
        = lookup lt (kept # x # xs) k" for k
      using l[of k] by (simp add: lookup_Cons)
    ultimately show ?thesis using True by (simp only: unique_from_step if_True) blast
  next
    case False
    have "ascending lt (kept # xs)" using Cons.prems by (simp add: ascending_def)
    from Cons.IH[OF this]
    have i: "I1 lt (kept # unique_from (not2 (value_compare lt)) kept xs)"
      and l: "\<And>k. lookup lt (kept # unique_from (not2 (value_compare lt)) kept xs) k = lookup lt (kept # xs) k"
      by auto
    have eq: "equiv_key lt (fst kept) (fst x)" using False nlt by (simp add: equiv_key_def)
    have "lookup lt (kept # x # xs) k = lookup lt (kept # xs) k" for k
      using equiv_key_trans[OF swo eq, of k] by (auto simp: lookup_Cons)
    with i l False show ?thesis by (simp only: unique_from_step if_False) simp
  qed
qed

lemma unique_I1:
  "strict_weak_order lt \<Longrightarrow> ascending lt xs \<Longrightarrow> I1 lt (unique (not2 (value_compare lt)) xs)"
  by (cases xs) (simp_all add: I1_def[of lt "[]"] unique_from_I1_lookup)

lemma unique_lookup:
  "strict_weak_order lt \<Longrightarrow> ascending lt xs \<Longrightarrow>
     lookup lt (unique (not2 (value_compare lt)) xs) k = lookup lt xs k"
  by (cases xs) (simp_all add: unique_from_I1_lookup)

subsection \<open>Binary search\<close>

lemma lower_bound_loop_partition:
  assumes "first + len \<le> length xs"
    and "\<And>i j. first \<le> i \<Longrightarrow> i < j \<Longrightarrow> j < first + len \<Longrightarrow> below (xs ! j) \<Longrightarrow> below (xs ! i)"
  shows "first \<le> lower_bound_loop below xs first len \<and>
         lower_bound_loop below xs first len \<le> first + len \<and>
         (\<forall>i. first \<le> i \<and> i < lower_bound_loop below xs first len \<longrightarrow> below (xs ! i)) \<and>
         (\<forall>i. lower_bound_loop below xs first len \<le> i \<and> i < first + len \<longrightarrow> \<not> below (xs ! i))"
  using assms
proof (induction below xs first len rule: lower_bound_loop.induct)
  case (1 below xs first len)
  show ?case
  proof (cases "len = 0")
    case True
    then show ?thesis by auto
  next
    case False
    define half where "half = len div 2"
    define middle where "middle = first + half"
    have hl: "half < len" using False by (simp add: half_def)
    show ?thesis
    proof (cases "below (xs ! middle)")
      case True
      have eq: "lower_bound_loop below xs first len = lower_bound_loop below xs (middle + 1) (len - half - 1)"
        using False True by (subst lower_bound_loop.simps) (simp add: Let_def half_def middle_def)
      have ih: "middle + 1 \<le> lower_bound_loop below xs (middle + 1) (len - half - 1) \<and>
         lower_bound_loop below xs (middle + 1) (len - half - 1) \<le> middle + 1 + (len - half - 1) \<and>
         (\<forall>i. middle + 1 \<le> i \<and> i < lower_bound_loop below xs (middle + 1) (len - half - 1) \<longrightarrow> below (xs ! i)) \<and>
         (\<forall>i. lower_bound_loop below xs (middle + 1) (len - half - 1) \<le> i \<and> i < middle + 1 + (len - half - 1) \<longrightarrow> \<not> below (xs ! i))"
      proof (rule "1.IH"(1)[OF False half_def middle_def True])
        show "middle + 1 + (len - half - 1) \<le> length xs"
          using "1.prems"(1) hl by (simp add: middle_def)
      next
        fix i j assume "middle + 1 \<le> i" "i < j" "j < middle + 1 + (len - half - 1)" "below (xs ! j)"
        then show "below (xs ! i)"
          using "1.prems"(2)[of i j] hl by (simp add: middle_def)
      qed
      have low: "below (xs ! i)" if "first \<le> i" "i \<le> middle" for i
      proof (cases "i = middle")
        case True
        then show ?thesis using \<open>below (xs ! middle)\<close> by simp
      next
        case False
        then show ?thesis
          using "1.prems"(2)[of i middle] that hl \<open>below (xs ! middle)\<close> by (simp add: middle_def)
      qed
      have e2: "middle + 1 + (len - half - 1) = first + len"
        using hl by (simp add: middle_def)
      show ?thesis
        unfolding eq using ih low e2
        by (metis Suc_eq_plus1 le_add1 le_trans middle_def not_less_eq_eq)
    next
      case nb: False
      have eq: "lower_bound_loop below xs first len = lower_bound_loop below xs first half"
        using False nb by (subst lower_bound_loop.simps) (simp add: Let_def half_def middle_def)
      have ih: "first \<le> lower_bound_loop below xs first half \<and>
         lower_bound_loop below xs first half \<le> first + half \<and>
         (\<forall>i. first \<le> i \<and> i < lower_bound_loop below xs first half \<longrightarrow> below (xs ! i)) \<and>
         (\<forall>i. lower_bound_loop below xs first half \<le> i \<and> i < first + half \<longrightarrow> \<not> below (xs ! i))"
      proof (rule "1.IH"(2)[OF False half_def middle_def nb])
        show "first + half \<le> length xs" using "1.prems"(1) hl by simp
      next
        fix i j assume "first \<le> i" "i < j" "j < first + half" "below (xs ! j)"
        then show "below (xs ! i)" using "1.prems"(2)[of i j] hl by simp
      qed
      have high: "\<not> below (xs ! i)" if "middle \<le> i" "i < first + len" for i
      proof (cases "i = middle")
        case True
        then show ?thesis using nb by simp
      next
        case False
        then show ?thesis
          using "1.prems"(2)[of middle i] that hl nb by (auto simp add: middle_def)
      qed
      show ?thesis
        unfolding eq using ih high hl
        by (metis add_less_cancel_left le_trans less_imp_le_nat middle_def not_le_imp_less trans_less_add1 add_le_cancel_left)
    qed
  qed
qed


text \<open>On a partitioned sequence the search returns the length of the part below the value.\<close>

lemma std_lower_bound_takeWhile:
  assumes part: "\<And>i j. i < j \<Longrightarrow> j < length xs \<Longrightarrow> cmp (xs ! j) v \<Longrightarrow> cmp (xs ! i) v"
  shows "std_lower_bound cmp xs v = length (takeWhile (\<lambda>e. cmp e v) xs)"
proof -
  define r where "r = std_lower_bound cmp xs v"
  have "0 \<le> r \<and> r \<le> 0 + length xs \<and>
        (\<forall>i. 0 \<le> i \<and> i < r \<longrightarrow> cmp (xs ! i) v) \<and>
        (\<forall>i. r \<le> i \<and> i < 0 + length xs \<longrightarrow> \<not> cmp (xs ! i) v)"
    unfolding r_def std_lower_bound_def
    by (rule lower_bound_loop_partition) (use part in auto)
  then have le: "r \<le> length xs" and lo: "\<And>i. i < r \<Longrightarrow> cmp (xs ! i) v"
    and hi: "\<And>i. r \<le> i \<Longrightarrow> i < length xs \<Longrightarrow> \<not> cmp (xs ! i) v"
    by auto
  have "takeWhile (\<lambda>e. cmp e v) xs = take r xs"
    by (rule takeWhile_eq_take_P_nth) (use lo hi in auto)
  then show ?thesis using le by (simp add: r_def[symmetric])
qed

lemma lower_bound_I1:
  assumes swo: "strict_weak_order lt" and inv: "I1 lt xs"
  shows "std_lower_bound (entry_key_compare lt) xs k = length (takeWhile (key_below lt k) xs)"
proof -
  have "std_lower_bound (entry_key_compare lt) xs k
          = length (takeWhile (\<lambda>e. entry_key_compare lt e k) xs)"
  proof (rule std_lower_bound_takeWhile)
    fix i j assume "i < j" "j < length xs" "entry_key_compare lt (xs ! j) k"
    moreover from inv \<open>i < j\<close> \<open>j < length xs\<close> have "lt (fst (xs ! i)) (fst (xs ! j))"
      unfolding I1_def value_compare_def by (simp add: sorted_wrt_iff_nth_less)
    ultimately show "entry_key_compare lt (xs ! i) k"
      using swo_trans[OF swo] by (auto simp: entry_key_compare_def)
  qed
  also have "(\<lambda>e. entry_key_compare lt e k) = key_below lt k"
    by (simp add: entry_key_compare_def key_below_def fun_eq_iff)
  finally show ?thesis .
qed

text \<open>Where the search stops in a strictly ascending sequence.\<close>

lemma split_at_key:
  assumes swo: "strict_weak_order lt" and inv: "I1 lt xs"
  shows "\<forall>e \<in> set (takeWhile (key_below lt k) xs). lt (fst e) k"
    and "\<forall>e \<in> set (dropWhile (key_below lt k) xs). \<not> lt (fst e) k"
proof -
  show "\<forall>e \<in> set (takeWhile (key_below lt k) xs). lt (fst e) k"
    using set_takeWhileD[of _ "key_below lt k" xs] by (auto simp: key_below_def)
  show "\<forall>e \<in> set (dropWhile (key_below lt k) xs). \<not> lt (fst e) k"
  proof (cases "dropWhile (key_below lt k) xs")
    case Nil
    then show ?thesis by (simp only: list.set ball_empty)
  next
    case (Cons d ds)
    have nd: "\<not> lt (fst d) k"
      using hd_dropWhile[of "key_below lt k" xs] Cons by (simp add: key_below_def)
    have "I1 lt (d # ds)"
      using inv Cons sorted_wrt_dropWhile[of "value_compare lt" xs "key_below lt k"]
      by (simp add: I1_def)
    then have "\<forall>e\<in>set ds. lt (fst d) (fst e)" by (simp add: I1_def value_compare_def)
    then have "\<forall>e\<in>set ds. \<not> lt (fst e) k"
      using nd swo_trans[OF swo] by blast
    with nd Cons show ?thesis by simp
  qed
qed

text \<open>
  The test of \<^verbatim>\<open>emplace\<close>, \<^verbatim>\<open>operator[]\<close> and \<^verbatim>\<open>binary_find\<close> on the position \<open>lb\<close> the
  search returns: it holds exactly when no stored key is equivalent to \<open>k\<close>.
\<close>

lemma absent_iff:
  fixes k :: 'k and xs :: "('k \<times> 'v) list"
  assumes swo: "strict_weak_order lt" and inv: "I1 lt xs"
  defines "lb \<equiv> length (takeWhile (key_below lt k) xs)"
  shows "(lb = length xs \<or> lt k (fst (xs ! lb))) \<longleftrightarrow> \<not> has_key lt xs k"
proof -
  have xs: "xs = takeWhile (key_below lt k) xs @ dropWhile (key_below lt k) xs" by simp
  have low: "\<forall>e \<in> set (takeWhile (key_below lt k) xs). \<not> equiv_key lt (fst e) k"
    using split_at_key(1)[OF swo inv, of k] by (auto simp: equiv_key_def)
  show ?thesis
  proof (cases "dropWhile (key_below lt k) xs")
    case Nil
    then have "lb = length xs" unfolding lb_def
      by (metis append_Nil2 takeWhile_dropWhile_id)
    moreover have "\<not> has_key lt xs k"
      using low Nil xs unfolding has_key_def by (metis append_Nil2)
    ultimately show ?thesis by simp
  next
    case (Cons d ds)
    have lbl: "lb < length xs"
      unfolding lb_def using Cons
      by (metis length_takeWhile_le le_neq_implies_less dropWhile_eq_Nil_conv list.distinct(1)
          takeWhile_eq_all_conv takeWhile_eq_take take_all_iff length_take min.absorb2 nat_le_linear)
    have d: "xs ! lb = d"
      unfolding lb_def using Cons by (metis hd_dropWhile dropWhile_eq_drop hd_drop_conv_nth lbl lb_def list.sel(1))
    have nd: "\<not> lt (fst d) k"
      using split_at_key(2)[OF swo inv, of k] Cons by simp
    have "I1 lt (d # ds)"
      using inv Cons sorted_wrt_dropWhile[of "value_compare lt" xs "key_below lt k"]
      by (simp add: I1_def)
    then have after: "\<forall>e\<in>set ds. lt (fst d) (fst e)" by (simp add: I1_def value_compare_def)
    show ?thesis
    proof (cases "lt k (fst d)")
      case True
      have "\<not> equiv_key lt (fst e) k" if "e \<in> set (d # ds)" for e
        using that True after swo_trans[OF swo] by (auto simp: equiv_key_def)
      then have "\<not> has_key lt xs k"
        using low xs Cons unfolding has_key_def
        by (metis Un_iff set_append)
      with True d lbl show ?thesis by simp
    next
      case False
      with nd have "equiv_key lt (fst d) k" by (simp add: equiv_key_def)
      moreover have "d \<in> set xs" using Cons by (metis list.set_intros(1) set_dropWhileD)
      ultimately have "has_key lt xs k" unfolding has_key_def by blast
      with False d lbl show ?thesis by simp
    qed
  qed
qed


subsection \<open>\<^verbatim>\<open>emplace\<close> on a map that satisfies I1\<close>

lemma present_position:
  fixes k :: 'k and xs :: "('k \<times> 'v) list"
  assumes swo: "strict_weak_order lt" and inv: "I1 lt xs" and has: "has_key lt xs k"
  defines "lb \<equiv> length (takeWhile (key_below lt k) xs)"
  shows "lb < length xs \<and> equiv_key lt (fst (xs ! lb)) k"
proof -
  from absent_iff[OF swo inv, of k] has
  have a: "lb \<noteq> length xs" and b: "\<not> lt k (fst (xs ! lb))" by (auto simp: lb_def)
  have lbl: "lb < length xs"
    using a length_takeWhile_le[of "key_below lt k" xs] by (simp add: lb_def)
  then have "\<not> key_below lt k (xs ! lb)"
    unfolding lb_def by (rule nth_length_takeWhile)
  with b lbl show ?thesis by (simp add: equiv_key_def key_below_def)
qed

lemma emplace_I1:
  fixes x :: "'k \<times> 'v"
  assumes swo: "strict_weak_order lt" and inv: "I1 lt (elems m)"
  defines "lb \<equiv> length (takeWhile (key_below lt (fst x)) (elems m))"
  shows "emplace lt grow poison m x =
     (if has_key lt (elems m) (fst x) then Done (lb, False) m
      else if poison x then Raise ConstructionFailure m
      else Done (lb, True)
             \<lparr> elems = ins lt x (elems m),
               unused = (if unused m = 0
                         then max (grow (capacity m)) (capacity m + 1) - (capacity m + 1)
                         else unused m - 1) \<rparr>)"
proof -
  have lb: "std_lower_bound (entry_key_compare lt) (elems m) (fst x) = lb"
    unfolding lb_def by (rule lower_bound_I1[OF swo inv])
  have test: "(lb = size_v m \<or> lt (fst x) (fst (elems m ! lb))) \<longleftrightarrow> \<not> has_key lt (elems m) (fst x)"
    unfolding lb_def size_v_def by (rule absent_iff[OF swo inv])
  have tk: "take lb (elems m) = takeWhile (key_below lt (fst x)) (elems m)"
    unfolding lb_def by (rule takeWhile_eq_take[symmetric])
  have dr: "drop lb (elems m) = dropWhile (key_below lt (fst x)) (elems m)"
    unfolding lb_def by (rule dropWhile_eq_drop[symmetric])
  show ?thesis
  proof (cases "has_key lt (elems m) (fst x)")
    case True
    with test show ?thesis unfolding emplace_def lb Let_def by simp
  next
    case False
    with test have "lb = size_v m \<or> lt (fst x) (fst (elems m ! lb))" by simp
    then show ?thesis
      unfolding emplace_def lb Let_def vec_emplace_def using False
      by (simp add: ins_def tk dr)
  qed
qed

lemma I1_ins:
  assumes swo: "strict_weak_order lt" and inv: "I1 lt xs"
  shows "I1 lt (ins lt x xs)"
proof (cases "has_key lt xs (fst x)")
  case True
  with inv show ?thesis by (simp add: ins_def)
next
  case False
  let ?T = "takeWhile (key_below lt (fst x)) xs" and ?D = "dropWhile (key_below lt (fst x)) xs"
  have t: "\<forall>e\<in>set ?T. lt (fst e) (fst x)" by (rule split_at_key(1)[OF swo inv])
  have "\<forall>e\<in>set ?D. \<not> lt (fst e) (fst x)" by (rule split_at_key(2)[OF swo inv])
  moreover have "\<forall>e\<in>set ?D. \<not> equiv_key lt (fst e) (fst x)"
    using False set_dropWhileD[of _ "key_below lt (fst x)" xs] by (auto simp: has_key_def)
  ultimately have d: "\<forall>e\<in>set ?D. lt (fst x) (fst e)" by (auto simp: equiv_key_def)
  have "sorted_wrt (value_compare lt) (?T @ ?D)" using inv by (simp add: I1_def)
  then have "sorted_wrt (value_compare lt) (?T @ x # ?D)"
    using t d swo_trans[OF swo] unfolding sorted_wrt_append
    by (auto simp: value_compare_def)
  with False show ?thesis by (simp add: ins_def I1_def)
qed

lemma lookup_ins:
  assumes swo: "strict_weak_order lt" and inv: "I1 lt xs"
  shows "lookup lt (ins lt x xs) k = lookup lt (xs @ [x]) k"
proof (cases "has_key lt xs (fst x)")
  case True
  have "lookup lt xs k \<noteq> None" if "equiv_key lt (fst x) k"
  proof -
    from True obtain e where "e \<in> set xs" "equiv_key lt (fst e) (fst x)"
      by (auto simp: has_key_def)
    with that have "has_key lt xs k"
      using equiv_key_trans[OF swo] by (auto simp: has_key_def)
    then show ?thesis by (simp add: lookup_None_iff)
  qed
  with True show ?thesis
    by (auto simp: ins_def lookup_append lookup_Cons split: option.splits)
next
  case False
  let ?T = "takeWhile (key_below lt (fst x)) xs" and ?D = "dropWhile (key_below lt (fst x)) xs"
  have "\<forall>e\<in>set ?D. \<not> lt (fst e) (fst x)" by (rule split_at_key(2)[OF swo inv])
  moreover have "\<forall>e\<in>set ?D. \<not> equiv_key lt (fst e) (fst x)"
    using False set_dropWhileD[of _ "key_below lt (fst x)" xs] by (auto simp: has_key_def)
  ultimately have d: "\<forall>e\<in>set ?D. lt (fst x) (fst e)" by (auto simp: equiv_key_def)
  have dn: "lookup lt ?D k = None" if "equiv_key lt (fst x) k"
  proof -
    have "\<not> equiv_key lt (fst e) k" if "e \<in> set ?D" for e
      using d that \<open>equiv_key lt (fst x) k\<close> lt_equiv_left[OF swo equiv_key_sym, of "fst x" k "fst e"]
      by (auto simp: equiv_key_def)
    then show ?thesis unfolding lookup_None_iff has_key_def by blast
  qed
  have l: "lookup lt (?T @ x # ?D) k = lookup lt (?T @ ?D @ [x]) k"
    using dn by (auto simp: lookup_append lookup_Cons split: option.splits)
  have "?T @ ?D @ [x] = xs @ [x]" by simp
  with l False show ?thesis by (simp add: ins_def)
qed

lemma swo_less_nat: "strict_weak_order ((<) :: nat \<Rightarrow> nat \<Rightarrow> bool)"
  unfolding strict_weak_order_def by auto

lemma ins_absent_nth:
  assumes "\<not> has_key lt xs (fst x)"
  defines "lb \<equiv> length (takeWhile (key_below lt (fst x)) xs)"
  shows "ins lt x xs = take lb xs @ x # drop lb xs \<and> lb \<le> length xs \<and> ins lt x xs ! lb = x"
proof -
  have "ins lt x xs = takeWhile (key_below lt (fst x)) xs @ x # dropWhile (key_below lt (fst x)) xs"
    using assms(1) by (simp add: ins_def)
  moreover have "takeWhile (key_below lt (fst x)) xs = take lb xs"
    unfolding lb_def by (rule takeWhile_eq_take)
  moreover have "dropWhile (key_below lt (fst x)) xs = drop lb xs"
    unfolding lb_def by (rule dropWhile_eq_drop)
  moreover have "lb \<le> length xs" unfolding lb_def by (rule length_takeWhile_le)
  ultimately show ?thesis by (simp add: nth_append)
qed

lemma lbl_eval: "lower_bound_loop below xs first 0 = first"
  "len \<noteq> 0 \<Longrightarrow> lower_bound_loop below xs first len =
      (if below (xs ! (first + len div 2))
       then lower_bound_loop below xs (first + len div 2 + 1) (len - len div 2 - 1)
       else lower_bound_loop below xs first (len div 2))"
  by (subst lower_bound_loop.simps, simp add: Let_def)+

lemma binary_find_I1:
  fixes xs :: "('k \<times> 'v) list"
  assumes swo: "strict_weak_order lt" and inv: "I1 lt xs"
  shows "binary_find lt xs k =
     (if has_key lt xs k then length (takeWhile (key_below lt k) xs) else length xs)"
  unfolding binary_find_def lower_bound_I1[OF swo inv] Let_def
  using absent_iff[OF swo inv, of k] by simp

text \<open>The search stops at a position all entries before which are below the key and the entry at which is not.\<close>

lemma lower_bound_at:
  fixes xs :: "('k \<times> 'v) list"
  assumes swo: "strict_weak_order lt" and inv: "I1 lt xs" and le: "p \<le> length xs"
    and before: "p = 0 \<or> lt (fst (xs ! (p - 1))) k"
    and here: "p = length xs \<or> \<not> lt (fst (xs ! p)) k"
  shows "std_lower_bound (entry_key_compare lt) xs k = p"
proof -
  have low: "key_below lt k (xs ! i)" if "i < p" for i
  proof (cases "i = p - 1")
    case True
    with before that show ?thesis by (auto simp: key_below_def)
  next
    case False
    with that le have "i < p - 1" "p - 1 < length xs" by auto
    with inv have "lt (fst (xs ! i)) (fst (xs ! (p - 1)))"
      unfolding I1_def value_compare_def by (simp add: sorted_wrt_iff_nth_less)
    moreover from before that have "lt (fst (xs ! (p - 1))) k" by auto
    ultimately show ?thesis using swo_trans[OF swo] by (auto simp: key_below_def)
  qed
  have "takeWhile (key_below lt k) xs = take p xs"
    by (rule takeWhile_eq_take_P_nth) (use low here in \<open>auto simp: key_below_def\<close>)
  with le show ?thesis by (simp add: lower_bound_I1[OF swo inv])
qed

lemma first_of_emplace_at:
  assumes "std_lower_bound (entry_key_compare lt) (elems m) (fst x) = p"
    and "p = size_v m \<or> lt (fst x) (fst (elems m ! p))"
  shows "first_of (emplace lt grow poison m x) = vec_emplace grow poison m p x"
  using assms by (auto simp: emplace_def first_of_def vec_emplace_def Let_def)

lemma emplace_hint_emplace:
  fixes m :: "('k, 'v) flat_map"
  assumes swo: "strict_weak_order lt" and inv: "I1 lt (elems m)" and hint: "hint \<le> size_v m"
  shows "emplace_hint lt grow poison m hint x = first_of (emplace lt grow poison m x)"
proof (cases "hint = size_v m \<or> lt (fst x) (fst (elems m ! hint))")
  case A: True
  show ?thesis
  proof (cases "hint = 0 \<or> lt (fst (elems m ! (hint - 1))) (fst x)")
    case True
    have "std_lower_bound (entry_key_compare lt) (elems m) (fst x) = hint"
      using hint True A swo_asym[OF swo]
      by (intro lower_bound_at[OF swo inv]) (auto simp: size_v_def)
    from first_of_emplace_at[OF this A] A True show ?thesis
      by (simp add: emplace_hint_def)
  next
    case False
    with A show ?thesis by (simp add: emplace_hint_def)
  qed
next
  case B: False
  show ?thesis
  proof (cases "lt (fst (elems m ! hint)) (fst x)")
    case True
    with B show ?thesis by (simp add: emplace_hint_def)
  next
    case False
    from B hint have hl: "hint < length (elems m)" by (simp add: size_v_def)
    have eq: "equiv_key lt (fst (elems m ! hint)) (fst x)"
      using B False by (simp add: equiv_key_def)
    have "hint = 0 \<or> lt (fst (elems m ! (hint - 1))) (fst x)"
    proof (cases "hint = 0")
      case False
      with hl inv have "lt (fst (elems m ! (hint - 1))) (fst (elems m ! hint))"
        unfolding I1_def value_compare_def by (simp add: sorted_wrt_iff_nth_less)
      then show ?thesis using lt_equiv_right[OF swo _ eq] by simp
    qed simp
    then have "std_lower_bound (entry_key_compare lt) (elems m) (fst x) = hint"
      using hl False by (intro lower_bound_at[OF swo inv]) auto
    with B False show ?thesis
      by (simp add: emplace_hint_def emplace_def first_of_def Let_def)
  qed
qed


lemma emplace_absent:
  fixes m :: "('k, 'v) flat_map"
  assumes swo: "strict_weak_order lt" and inv: "I1 lt (elems m)"
    and absent: "\<not> has_key lt (elems m) (fst x)" and good: "\<not> poison x"
  shows "\<exists>pos m'. emplace lt grow poison m x = Done (pos, True) m' \<and> pos \<le> size_v m \<and>
           elems m' = take pos (elems m) @ x # drop pos (elems m) \<and> elems m' ! pos = x \<and>
           elems m' = ins lt x (elems m) \<and> I1 lt (elems m')"
proof -
  define pos where "pos = length (takeWhile (key_below lt (fst x)) (elems m))"
  define m' where "m' = \<lparr> elems = ins lt x (elems m),
      unused = (if unused m = 0 then max (grow (capacity m)) (capacity m + 1) - (capacity m + 1)
                else unused m - 1) \<rparr>"
  from ins_absent_nth[OF absent]
  have i: "ins lt x (elems m) = take pos (elems m) @ x # drop pos (elems m)"
    and p: "pos \<le> length (elems m)" and n: "ins lt x (elems m) ! pos = x"
    unfolding pos_def by blast+
  have "emplace lt grow poison m x = Done (pos, True) m'"
    using emplace_I1[OF swo inv, of grow poison x] absent good by (simp add: pos_def m'_def)
  moreover have "elems m' = take pos (elems m) @ x # drop pos (elems m)"
    using i by (simp add: m'_def)
  moreover have "elems m' ! pos = x" using n by (simp add: m'_def)
  moreover have "elems m' = ins lt x (elems m)" by (simp add: m'_def)
  moreover have "I1 lt (elems m')" using I1_ins[OF swo inv, of x] by (simp add: m'_def)
  ultimately show ?thesis using p unfolding size_v_def by blast
qed

lemma emplace_present:
  fixes m :: "('k, 'v) flat_map"
  assumes swo: "strict_weak_order lt" and inv: "I1 lt (elems m)"
    and present: "has_key lt (elems m) (fst x)"
  shows "\<exists>pos. emplace lt grow poison m x = Done (pos, False) m \<and> pos < size_v m \<and>
           equiv_key lt (fst (elems m ! pos)) (fst x)"
  using emplace_I1[OF swo inv, of grow poison x] present_position[OF swo inv present] present
  by (simp add: size_v_def)

lemma emplace_throws:
  fixes m :: "('k, 'v) flat_map"
  assumes swo: "strict_weak_order lt" and inv: "I1 lt (elems m)"
    and absent: "\<not> has_key lt (elems m) (fst x)" and bad: "poison x"
  shows "emplace lt grow poison m x = Raise ConstructionFailure m"
  using emplace_I1[OF swo inv, of grow poison x] absent bad by simp

subsection \<open>The append step and its rollback\<close>

lemma vector_eq: "\<lparr> elems = elems m, unused = unused m \<rparr> = (m :: 'a vector)"
  by simp

lemma vec_emplace_back_good:
  "\<not> poison x \<Longrightarrow> 0 < unused m \<Longrightarrow>
     vec_emplace_back grow poison m x = Done () \<lparr> elems = elems m @ [x], unused = unused m - 1 \<rparr>"
  by (simp add: vec_emplace_back_def vec_emplace_def size_v_def)

lemma vec_emplace_back_poison:
  "poison x \<Longrightarrow> vec_emplace_back grow poison m x = Raise ConstructionFailure m"
  by (simp add: vec_emplace_back_def vec_emplace_def)

text \<open>
  The append loop, run with no more rounds than there are unused slots: it appends the
  elements up to the first that throws, and stops there.
\<close>

lemma append_loop_spec:
  assumes "i - size_before \<le> unused m"
  shows "append_loop grow poison m i size_before xs =
     (if \<forall>x \<in> set (take (i - size_before) xs). \<not> poison x
      then Done (drop (i - size_before) xs)
             \<lparr> elems = elems m @ take (i - size_before) xs,
               unused = unused m - length (take (i - size_before) xs) \<rparr>
      else Raise ConstructionFailure
             \<lparr> elems = elems m @ takeWhile (\<lambda>x. \<not> poison x) xs,
               unused = unused m - length (takeWhile (\<lambda>x. \<not> poison x) xs) \<rparr>)"
  using assms
proof (induction xs arbitrary: m i)
  case Nil
  then show ?case by simp
next
  case (Cons x xs)
  show ?case
  proof (cases "size_before < i")
    case False
    then show ?thesis by simp
  next
    case True
    then obtain n where n: "i - size_before = Suc n" by (cases "i - size_before") auto
    with Cons.prems have u: "0 < unused m" by simp
    show ?thesis
    proof (cases "poison x")
      case True
      with \<open>size_before < i\<close> n show ?thesis by (simp add: vec_emplace_back_poison)
    next
      case False
      let ?m' = "\<lparr> elems = elems m @ [x], unused = unused m - 1 \<rparr>"
      have "(i - 1) - size_before \<le> unused ?m'" using Cons.prems n by simp
      moreover have "i - 1 - size_before = n" using n by simp
      ultimately have ih: "append_loop grow poison ?m' (i - 1) size_before xs =
         (if \<forall>x \<in> set (take n xs). \<not> poison x
          then Done (drop n xs)
                 \<lparr> elems = elems m @ x # take n xs, unused = unused m - 1 - length (take n xs) \<rparr>
          else Raise ConstructionFailure
                 \<lparr> elems = elems m @ x # takeWhile (\<lambda>x. \<not> poison x) xs,
                   unused = unused m - 1 - length (takeWhile (\<lambda>x. \<not> poison x) xs) \<rparr>)"
        using Cons.IH[of "i - 1" ?m'] by simp
      show ?thesis
        using \<open>size_before < i\<close> n False u ih
        by (simp add: vec_emplace_back_good)
    qed
  qed
qed

text \<open>The rollback loop takes back what the append loop has appended.\<close>

lemma pop_loop_spec:
  "pop_loop \<lparr> elems = es @ gs, unused = u \<rparr> (length es + length gs) (length es)
     = \<lparr> elems = es, unused = u + length gs \<rparr>"
proof (induction gs arbitrary: u rule: rev_induct)
  case Nil
  then show ?case by (cases "length es") simp_all
next
  case (snoc g gs)
  have "pop_loop \<lparr> elems = es @ gs @ [g], unused = u \<rparr> (Suc (length es + length gs)) (length es)
          = pop_loop \<lparr> elems = es @ gs, unused = u + 1 \<rparr> (length es + length gs) (length es)"
    by (simp add: vec_pop_back_def butlast_append)
  with snoc[of "u + 1"] show ?case by simp
qed

lemma length_takeWhile_good:
  assumes "\<exists>x \<in> set (take n xs). poison x"
  shows "length (takeWhile (\<lambda>x. \<not> poison x) xs) < n"
  using assms
proof (induction xs arbitrary: n)
  case Nil
  then show ?case by simp
next
  case (Cons x xs)
  then show ?case by (cases n) auto
qed

lemma append_batch_spec:
  "append_batch grow poison m xs =
     (if \<forall>x \<in> set (take (unused m) xs). \<not> poison x
      then Done (drop (unused m) xs)
             \<lparr> elems = elems m @ take (unused m) xs,
               unused = unused m - length (take (unused m) xs) \<rparr>
      else Raise ConstructionFailure m)"
proof -
  have d: "capacity m - size_v m = unused m" by (simp add: capacity_def size_v_def)
  have loop: "append_loop grow poison m (capacity m) (size_v m) xs =
     (if \<forall>x \<in> set (take (unused m) xs). \<not> poison x
      then Done (drop (unused m) xs)
             \<lparr> elems = elems m @ take (unused m) xs,
               unused = unused m - length (take (unused m) xs) \<rparr>
      else Raise ConstructionFailure
             \<lparr> elems = elems m @ takeWhile (\<lambda>x. \<not> poison x) xs,
               unused = unused m - length (takeWhile (\<lambda>x. \<not> poison x) xs) \<rparr>)"
    using append_loop_spec[of "capacity m" "size_v m" m grow poison xs] by (simp add: d)
  show ?thesis
  proof (cases "\<forall>x \<in> set (take (unused m) xs). \<not> poison x")
    case True
    with loop show ?thesis by (simp add: append_batch_def Let_def)
  next
    case False
    then have "length (takeWhile (\<lambda>x. \<not> poison x) xs) < unused m"
      using length_takeWhile_good[of "unused m" xs poison] by blast
    then have "pop_loop \<lparr> elems = elems m @ takeWhile (\<lambda>x. \<not> poison x) xs,
               unused = unused m - length (takeWhile (\<lambda>x. \<not> poison x) xs) \<rparr>
               (length (elems m) + length (takeWhile (\<lambda>x. \<not> poison x) xs)) (length (elems m)) = m"
      by (simp add: pop_loop_spec)
    with False loop show ?thesis by (simp add: append_batch_def Let_def size_v_def)
  qed
qed


lemma emplace_while_full_spare:
  "0 < unused m \<Longrightarrow> emplace_while_full lt grow poison m xs = Done xs m"
  by (cases xs) (simp_all add: size_v_def capacity_def)

lemma insert_pass_append_fails:
  assumes "emplace_while_full lt grow poison m0 xs0 = Done xs m"
    and "\<exists>x \<in> set (take (unused m) xs). poison x"
  shows "insert_pass lt grow poison m0 xs0 = Raise ConstructionFailure m"
proof -
  from assms(2) have "xs \<noteq> []" by auto
  with assms show ?thesis
    by (auto simp add: insert_pass_def append_batch_spec Let_def)
qed

subsection \<open>Insertion of a range against insertion one by one\<close>

lemma emplace_Raise:
  "emplace lt grow poison m x = Raise e m' \<Longrightarrow> e = ConstructionFailure \<and> m' = m"
  by (auto simp: emplace_def vec_emplace_def Let_def split: if_splits)

lemma emplace_each_append:
  "emplace_each lt grow poison m (ys @ zs) =
     (case emplace_each lt grow poison m ys of
        Raise e m' \<Rightarrow> Raise e m'
      | Done u m' \<Rightarrow> emplace_each lt grow poison m' zs)"
  by (induction ys arbitrary: m) (auto split: outcome.splits)

lemma I1_ins_each:
  "strict_weak_order lt \<Longrightarrow> I1 lt xs \<Longrightarrow> I1 lt (ins_each lt xs cs)"
  by (induction cs arbitrary: xs) (simp_all add: I1_ins)

lemma lookup_ins_each:
  assumes swo: "strict_weak_order lt"
  shows "I1 lt xs \<Longrightarrow> lookup lt (ins_each lt xs cs) k = lookup lt (xs @ cs) k"
proof (induction cs arbitrary: xs)
  case Nil
  then show ?case by simp
next
  case (Cons c cs)
  have "lookup lt (ins_each lt (ins lt c xs) cs) k = lookup lt (ins lt c xs @ cs) k"
    by (rule Cons.IH[OF I1_ins[OF swo Cons.prems]])
  also have "\<dots> = lookup lt ((xs @ [c]) @ cs) k"
    unfolding lookup_append[of lt _ cs] lookup_ins[OF swo Cons.prems] ..
  finally show ?case by simp
qed

text \<open>
  Sorting the appended elements, merging them behind the stored ones and removing the
  later of equivalent neighbours leaves the sequence that inserting them one by one leaves.
\<close>

lemma merge_unique_ins_each:
  fixes xs cs :: "('k \<times> 'v) list"
  assumes swo: "strict_weak_order lt" and inv: "I1 lt xs"
  shows "unique (not2 (value_compare lt))
           (inplace_merge (value_compare lt) xs (stable_sort (value_compare lt) cs))
         = ins_each lt xs cs"
proof (rule I1_lookup_ext[OF swo])
  let ?M = "inplace_merge (value_compare lt) xs (stable_sort (value_compare lt) cs)"
  have asc: "ascending lt ?M"
    by (intro ascending_inplace_merge[OF swo] I1_ascending[OF swo inv] ascending_stable_sort[OF swo])
  show "I1 lt (unique (not2 (value_compare lt)) ?M)" by (rule unique_I1[OF swo asc])
  show "I1 lt (ins_each lt xs cs)" by (rule I1_ins_each[OF swo inv])
  fix k
  have "lookup lt (unique (not2 (value_compare lt)) ?M) k = lookup lt ?M k"
    by (rule unique_lookup[OF swo asc])
  also have "\<dots> = lookup lt (xs @ stable_sort (value_compare lt) cs) k"
    by (intro lookup_inplace_merge[OF swo] I1_ascending[OF swo inv] ascending_stable_sort[OF swo])
  also have "\<dots> = lookup lt (xs @ cs) k"
    unfolding lookup_append lookup_stable_sort[OF swo] ..
  also have "\<dots> = lookup lt (ins_each lt xs cs) k"
    by (rule lookup_ins_each[OF swo inv, symmetric])
  finally show "lookup lt (unique (not2 (value_compare lt)) ?M) k = lookup lt (ins_each lt xs cs) k" .
qed

lemma length_ins:
  "length (ins lt x xs) = (if has_key lt xs (fst x) then length xs else Suc (length xs))"
proof -
  have "length (takeWhile (key_below lt (fst x)) xs) + length (dropWhile (key_below lt (fst x)) xs)
          = length xs"
    by (metis length_append takeWhile_dropWhile_id)
  then show ?thesis by (simp add: ins_def)
qed

lemma length_ins_each:
  "length xs \<le> length (ins_each lt xs cs) \<and> length (ins_each lt xs cs) \<le> length xs + length cs"
proof (induction cs arbitrary: xs)
  case Nil
  then show ?case by simp
next
  case (Cons c cs)
  from Cons.IH[of "ins lt c xs"] show ?case by (simp add: length_ins split: if_splits)
qed

lemma length_insert_sorted: "length (insert_sorted cmp x ys) = Suc (length ys)"
  by (induction ys) auto

lemma length_stable_sort: "length (stable_sort cmp xs) = length xs"
  by (induction xs) (auto simp: length_insert_sorted)

lemma length_inplace_merge: "length (inplace_merge cmp xs ys) = length xs + length ys"
  by (induction cmp xs ys rule: inplace_merge.induct) auto

lemma length_unique_from: "length (unique_from pred kept xs) \<le> length xs"
  by (induction xs arbitrary: kept) (auto simp: le_SucI)

lemma length_unique: "length (unique pred xs) \<le> length xs"
  by (cases xs) (auto simp: length_unique_from)

text \<open>Inserting one by one no more elements than there are unused slots never reallocates.\<close>

lemma emplace_each_spare:
  fixes m :: "('k, 'v) flat_map"
  assumes swo: "strict_weak_order lt"
  shows "I1 lt (elems m) \<Longrightarrow> \<forall>x \<in> set cs. \<not> poison x \<Longrightarrow> length cs \<le> unused m \<Longrightarrow>
     emplace_each lt grow poison m cs =
       Done () \<lparr> elems = ins_each lt (elems m) cs,
                unused = unused m + length (elems m) - length (ins_each lt (elems m) cs) \<rparr>"
proof (induction cs arbitrary: m)
  case Nil
  then show ?case by simp
next
  case (Cons c cs)
  show ?case
  proof (cases "has_key lt (elems m) (fst c)")
    case True
    then have e: "emplace lt grow poison m c
        = Done (length (takeWhile (key_below lt (fst c)) (elems m)), False) m"
      using emplace_I1[OF swo Cons.prems(1), of grow poison c] by simp
    have i: "ins lt c (elems m) = elems m" using True by (simp add: ins_def)
    from Cons.IH[of m] Cons.prems show ?thesis by (simp add: e i)
  next
    case False
    let ?m' = "\<lparr> elems = ins lt c (elems m), unused = unused m - 1 \<rparr>"
    have u: "0 < unused m" using Cons.prems(3) by simp
    have e: "emplace lt grow poison m c
        = Done (length (takeWhile (key_below lt (fst c)) (elems m)), True) ?m'"
      using emplace_I1[OF swo Cons.prems(1), of grow poison c] False Cons.prems(2) u by simp
    have "I1 lt (elems ?m')" using I1_ins[OF swo Cons.prems(1), of c] by simp
    moreover have "\<forall>x \<in> set cs. \<not> poison x" using Cons.prems(2) by simp
    moreover have "length cs \<le> unused ?m'" using Cons.prems(3) by simp
    ultimately have "emplace_each lt grow poison ?m' cs =
       Done () \<lparr> elems = ins_each lt (elems ?m') cs,
                unused = unused ?m' + length (elems ?m') - length (ins_each lt (elems ?m') cs) \<rparr>"
      by (rule Cons.IH)
    moreover have "unused ?m' + length (elems ?m') = unused m + length (elems m)"
      using u False by (simp add: length_ins)
    ultimately show ?thesis by (simp add: e)
  qed
qed

lemma merge_batch_spec:
  fixes es cs :: "('k \<times> 'v) list"
  assumes swo: "strict_weak_order lt" and inv: "I1 lt es"
  shows "merge_batch lt \<lparr> elems = es @ cs, unused = u \<rparr> (length es)
     = \<lparr> elems = ins_each lt es cs,
         unused = u + (length es + length cs - length (ins_each lt es cs)) \<rparr>"
proof -
  let ?M = "inplace_merge (value_compare lt) es (stable_sort (value_compare lt) cs)"
  have k: "unique (not2 (value_compare lt)) ?M = ins_each lt es cs"
    by (rule merge_unique_ins_each[OF swo inv])
  have lm: "length ?M = length es + length cs"
    by (simp add: length_inplace_merge length_stable_sort)
  have le: "length (ins_each lt es cs) \<le> length es + length cs"
    using length_ins_each[of es lt cs] by simp
  show ?thesis
    unfolding merge_batch_def Let_def
    using le by (simp add: k lm vec_erase_range_def size_v_def)
qed


lemma prefix_done_refl: "prefix_done lt grow poison m xs xs m"
  by (simp add: prefix_done_def)

lemma prefix_done_trans:
  assumes "prefix_done lt grow poison m xs xs1 m1" and "prefix_done lt grow poison m1 xs1 xs2 m2"
  shows "prefix_done lt grow poison m xs xs2 m2"
proof -
  from assms obtain ys zs where "xs = ys @ xs1" "emplace_each lt grow poison m ys = Done () m1"
    "xs1 = zs @ xs2" "emplace_each lt grow poison m1 zs = Done () m2"
    by (auto simp: prefix_done_def)
  then have "xs = (ys @ zs) @ xs2 \<and> emplace_each lt grow poison m (ys @ zs) = Done () m2"
    by (simp add: emplace_each_append)
  then show ?thesis unfolding prefix_done_def by blast
qed

lemma prefix_done_step:
  assumes "emplace lt grow poison m x = Done r m'"
  shows "prefix_done lt grow poison m (x # xs) xs m'"
proof -
  have "x # xs = [x] @ xs \<and> emplace_each lt grow poison m [x] = Done () m'"
    using assms by simp
  then show ?thesis unfolding prefix_done_def by blast
qed

lemma emplace_Done_I1:
  fixes m :: "('k, 'v) flat_map"
  assumes "strict_weak_order lt" and "I1 lt (elems m)" and "emplace lt grow poison m x = Done r m'"
  shows "I1 lt (elems m')"
  using emplace_I1[OF assms(1,2), of grow poison x] assms(3) I1_ins[OF assms(1,2), of x] assms(2)
  by (auto split: if_splits)

lemma emplace_each_I1:
  fixes m :: "('k, 'v) flat_map"
  assumes swo: "strict_weak_order lt"
  shows "I1 lt (elems m) \<Longrightarrow> emplace_each lt grow poison m ys = Done () m' \<Longrightarrow> I1 lt (elems m')"
proof (induction ys arbitrary: m)
  case Nil
  then show ?case by simp
next
  case (Cons y ys)
  from Cons.prems(2) obtain r m1 where e: "emplace lt grow poison m y = Done r m1"
    and rest: "emplace_each lt grow poison m1 ys = Done () m'"
    by (auto split: outcome.splits)
  from Cons.IH[OF emplace_Done_I1[OF swo Cons.prems(1) e] rest] show ?case .
qed

lemma prefix_done_I1:
  fixes m :: "('k, 'v) flat_map"
  shows "strict_weak_order lt \<Longrightarrow> I1 lt (elems m) \<Longrightarrow> prefix_done lt grow poison m xs rest m'
     \<Longrightarrow> I1 lt (elems m')"
  unfolding prefix_done_def using emplace_each_I1 by blast

lemma emplace_while_full_Done:
  "emplace_while_full lt grow poison m xs = Done xs1 m1 \<Longrightarrow> prefix_done lt grow poison m xs xs1 m1"
proof (induction xs arbitrary: m)
  case Nil
  then show ?case by (simp add: prefix_done_def)
next
  case (Cons x xs)
  show ?case
  proof (cases "size_v m = capacity m")
    case True
    with Cons.prems obtain r m' where e: "emplace lt grow poison m x = Done r m'"
      and rest: "emplace_while_full lt grow poison m' xs = Done xs1 m1"
      by (auto split: outcome.splits)
    from prefix_done_trans[OF prefix_done_step[OF e] Cons.IH[OF rest]] show ?thesis .
  next
    case False
    with Cons.prems show ?thesis by (auto simp: prefix_done_refl)
  qed
qed

lemma emplace_while_full_Raise:
  "emplace_while_full lt grow poison m xs = Raise e m1 \<Longrightarrow>
     e = ConstructionFailure \<and> (\<exists>zs. zs \<noteq> [] \<and> prefix_done lt grow poison m xs zs m1)"
proof (induction xs arbitrary: m)
  case Nil
  then show ?case by simp
next
  case (Cons x xs)
  then have full: "size_v m = capacity m" by (auto split: if_splits)
  show ?case
  proof (cases "emplace lt grow poison m x")
    case (Done r m')
    with Cons.prems full have "emplace_while_full lt grow poison m' xs = Raise e m1" by simp
    from Cons.IH[OF this] obtain zs where "e = ConstructionFailure" "zs \<noteq> []"
      "prefix_done lt grow poison m' xs zs m1" by blast
    with prefix_done_trans[OF prefix_done_step[OF Done]] show ?thesis by blast
  next
    case (Raise e' m')
    with Cons.prems full have "e' = e" "m' = m1" by simp_all
    with emplace_Raise[OF Raise] have "e = ConstructionFailure" "m1 = m" by simp_all
    then show ?thesis using prefix_done_refl[of lt grow poison m "x # xs"] by blast
  qed
qed

lemma emplace_until_inserted_Done:
  "emplace_until_inserted lt grow poison m xs = Done xs1 m1 \<Longrightarrow>
     prefix_done lt grow poison m xs xs1 m1"
proof (induction xs arbitrary: m)
  case Nil
  then show ?case by (simp add: prefix_done_def)
next
  case (Cons x xs)
  from Cons.prems obtain r m' where e: "emplace lt grow poison m x = Done r m'"
    by (cases "emplace lt grow poison m x") auto
  show ?case
  proof (cases "snd r")
    case True
    with Cons.prems e have "xs1 = xs" "m1 = m'" by simp_all
    with prefix_done_step[OF e] show ?thesis by simp
  next
    case False
    with Cons.prems e have "emplace_until_inserted lt grow poison m' xs = Done xs1 m1" by simp
    from prefix_done_trans[OF prefix_done_step[OF e] Cons.IH[OF this]] show ?thesis .
  qed
qed

lemma emplace_until_inserted_Raise:
  "emplace_until_inserted lt grow poison m xs = Raise e m1 \<Longrightarrow>
     e = ConstructionFailure \<and> (\<exists>zs. zs \<noteq> [] \<and> prefix_done lt grow poison m xs zs m1)"
proof (induction xs arbitrary: m)
  case Nil
  then show ?case by simp
next
  case (Cons x xs)
  show ?case
  proof (cases "emplace lt grow poison m x")
    case (Done r m')
    with Cons.prems have "emplace_until_inserted lt grow poison m' xs = Raise e m1"
      by (simp split: if_splits)
    from Cons.IH[OF this] obtain zs where "e = ConstructionFailure" "zs \<noteq> []"
      "prefix_done lt grow poison m' xs zs m1" by blast
    with prefix_done_trans[OF prefix_done_step[OF Done]] show ?thesis by blast
  next
    case (Raise e' m')
    with Cons.prems have "e' = e" "m' = m1" by simp_all
    with emplace_Raise[OF Raise] have "e = ConstructionFailure" "m1 = m" by simp_all
    then show ?thesis using prefix_done_refl[of lt grow poison m "x # xs"] by blast
  qed
qed

text \<open>One batch: append, sort, merge, remove duplicates.\<close>

lemma batch_prefix_done:
  fixes m :: "('k, 'v) flat_map"
  assumes swo: "strict_weak_order lt" and inv: "I1 lt (elems m)"
    and good: "\<forall>x \<in> set (take (unused m) xs). \<not> poison x"
  defines "m2 \<equiv> \<lparr> elems = elems m @ take (unused m) xs,
                    unused = unused m - length (take (unused m) xs) \<rparr>"
  shows "prefix_done lt grow poison m xs (drop (unused m) xs) (merge_batch lt m2 (size_v m))"
proof -
  let ?c = "take (unused m) xs"
  let ?K = "ins_each lt (elems m) ?c"
  have lc: "length ?c \<le> unused m" by simp
  have lk: "length (elems m) \<le> length ?K" "length ?K \<le> length (elems m) + length ?c"
    using length_ins_each[of "elems m" lt ?c] by simp_all
  have "merge_batch lt m2 (size_v m)
      = \<lparr> elems = ?K, unused = unused m - length ?c + (length (elems m) + length ?c - length ?K) \<rparr>"
    unfolding m2_def size_v_def by (rule merge_batch_spec[OF swo inv])
  also have "\<dots> = \<lparr> elems = ?K, unused = unused m + length (elems m) - length ?K \<rparr>"
    using lc lk by simp
  also have "Done () \<dots> = emplace_each lt grow poison m ?c"
    by (rule emplace_each_spare[OF swo inv good lc, symmetric])
  finally have "emplace_each lt grow poison m ?c = Done () (merge_batch lt m2 (size_v m))" by simp
  moreover have "xs = ?c @ drop (unused m) xs" by simp
  ultimately show ?thesis unfolding prefix_done_def by blast
qed


lemma insert_pass_prefix:
  fixes m :: "('k, 'v) flat_map"
  assumes swo: "strict_weak_order lt" and inv: "I1 lt (elems m)"
  shows "(insert_pass lt grow poison m xs = Done None m' \<longrightarrow> prefix_done lt grow poison m xs [] m') \<and>
         (insert_pass lt grow poison m xs = Done (Some xs') m' \<longrightarrow>
            prefix_done lt grow poison m xs xs' m') \<and>
         (insert_pass lt grow poison m xs = Raise e m' \<longrightarrow>
            e = ConstructionFailure \<and> (\<exists>zs. zs \<noteq> [] \<and> prefix_done lt grow poison m xs zs m'))"
proof (cases "emplace_while_full lt grow poison m xs")
  case (Raise e1 m1)
  then have "insert_pass lt grow poison m xs = Raise e1 m1" by (simp add: insert_pass_def)
  with emplace_while_full_Raise[OF Raise] show ?thesis by auto
next
  case (Done xs1 m1)
  note p1 = emplace_while_full_Done[OF Done]
  have inv1: "I1 lt (elems m1)" by (rule prefix_done_I1[OF swo inv p1])
  show ?thesis
  proof (cases "xs1 = []")
    case True
    with Done have "insert_pass lt grow poison m xs = Done None m1" by (simp add: insert_pass_def)
    with p1 True show ?thesis by auto
  next
    case ne: False
    show ?thesis
    proof (cases "\<forall>x \<in> set (take (unused m1) xs1). \<not> poison x")
      case False
      then have "insert_pass lt grow poison m xs = Raise ConstructionFailure m1"
        using insert_pass_append_fails[OF Done] by blast
      with p1 ne show ?thesis by auto
    next
      case good: True
      define m2 where "m2 = \<lparr> elems = elems m1 @ take (unused m1) xs1,
                               unused = unused m1 - length (take (unused m1) xs1) \<rparr>"
      define xs2 where "xs2 = drop (unused m1) xs1"
      define m3 where "m3 = merge_batch lt m2 (size_v m1)"
      have ab: "append_batch grow poison m1 xs1 = Done xs2 m2"
        using good by (simp add: append_batch_spec m2_def xs2_def)
      have p3: "prefix_done lt grow poison m xs xs2 m3"
        unfolding m3_def m2_def xs2_def
        by (rule prefix_done_trans[OF p1 batch_prefix_done[OF swo inv1 good]])
      have pass: "insert_pass lt grow poison m xs =
          (case (if size_v m3 = size_v m1 then emplace_until_inserted lt grow poison m3 xs2
                 else Done xs2 m3) of
             Raise e m4 \<Rightarrow> Raise e m4
           | Done xs4 m4 \<Rightarrow> Done (Some xs4) m4)"
        using Done ne ab by (simp add: insert_pass_def Let_def m3_def)
      show ?thesis
      proof (cases "size_v m3 = size_v m1")
        case False
        with pass have "insert_pass lt grow poison m xs = Done (Some xs2) m3" by simp
        with p3 show ?thesis by auto
      next
        case True
        show ?thesis
        proof (cases "emplace_until_inserted lt grow poison m3 xs2")
          case (Done xs4 m4)
          with pass True have "insert_pass lt grow poison m xs = Done (Some xs4) m4" by simp
          with prefix_done_trans[OF p3 emplace_until_inserted_Done[OF Done]] show ?thesis by auto
        next
          case (Raise e4 m4)
          with pass True have r: "insert_pass lt grow poison m xs = Raise e4 m4" by simp
          from emplace_until_inserted_Raise[OF Raise] obtain zs where
            "e4 = ConstructionFailure" "zs \<noteq> []" "prefix_done lt grow poison m3 xs2 zs m4"
            by blast
          with prefix_done_trans[OF p3] r show ?thesis by auto
        qed
      qed
    qed
  qed
qed

lemma insert_range_prefix:
  fixes m :: "('k, 'v) flat_map"
  shows "strict_weak_order lt \<Longrightarrow> I1 lt (elems m) \<Longrightarrow>
         (insert_range lt grow poison m xs = Done () m' \<longrightarrow> prefix_done lt grow poison m xs [] m') \<and>
         (insert_range lt grow poison m xs = Raise e m' \<longrightarrow>
            e = ConstructionFailure \<and> (\<exists>zs. zs \<noteq> [] \<and> prefix_done lt grow poison m xs zs m'))"
proof (induction lt grow poison m xs rule: insert_range.induct)
  case (1 lt grow poison m xs)
  note swo = "1.prems"(1) and inv = "1.prems"(2)
  show ?case
  proof (cases "insert_pass lt grow poison m xs")
    case (Raise e1 m1)
    then have "insert_range lt grow poison m xs = Raise e1 m1" by simp
    with insert_pass_prefix[OF swo inv, of grow poison xs m1 undefined e1] Raise
    show ?thesis by auto
  next
    case (Done r m1)
    show ?thesis
    proof (cases r)
      case None
      with Done have "insert_range lt grow poison m xs = Done () m1" by simp
      with insert_pass_prefix[OF swo inv, of grow poison xs m1] Done None
      show ?thesis by auto
    next
      case (Some xs1)
      with Done have eq: "insert_range lt grow poison m xs = insert_range lt grow poison m1 xs1"
        by simp
      have p1: "prefix_done lt grow poison m xs xs1 m1"
        using insert_pass_prefix[OF swo inv, of grow poison xs m1 xs1] Done Some by auto
      have inv1: "I1 lt (elems m1)" by (rule prefix_done_I1[OF swo inv p1])
      from "1.IH"[OF Done Some swo inv1] prefix_done_trans[OF p1] show ?thesis
        unfolding eq by blast
    qed
  qed
qed


lemma emplace_good: "\<not> poison x \<Longrightarrow> \<exists>r m'. emplace lt grow poison m x = Done r m'"
  by (cases "emplace lt grow poison m x") (auto dest: emplace_Raise simp: emplace_def vec_emplace_def Let_def split: if_splits)

lemma emplace_while_full_good:
  "\<forall>x \<in> set xs. \<not> poison x \<Longrightarrow> \<exists>xs1 m1. emplace_while_full lt grow poison m xs = Done xs1 m1"
proof (induction xs arbitrary: m)
  case Nil
  then show ?case by simp
next
  case (Cons x xs)
  from Cons.prems emplace_good[of poison x lt grow m] obtain r m' where
    "emplace lt grow poison m x = Done r m'" by auto
  with Cons.IH[of m'] Cons.prems show ?case by auto
qed

lemma emplace_until_inserted_good:
  "\<forall>x \<in> set xs. \<not> poison x \<Longrightarrow> \<exists>xs1 m1. emplace_until_inserted lt grow poison m xs = Done xs1 m1"
proof (induction xs arbitrary: m)
  case Nil
  then show ?case by simp
next
  case (Cons x xs)
  from Cons.prems emplace_good[of poison x lt grow m] obtain r m' where
    "emplace lt grow poison m x = Done r m'" by auto
  with Cons.IH[of m'] Cons.prems show ?case by auto
qed

lemma prefix_done_suffix: "prefix_done lt grow poison m xs rest m' \<Longrightarrow> set rest \<subseteq> set xs"
  by (auto simp: prefix_done_def)

lemma insert_pass_good:
  assumes good: "\<forall>x \<in> set xs. \<not> poison x"
  shows "\<exists>r m'. insert_pass lt grow poison m xs = Done r m'"
proof -
  from emplace_while_full_good[OF good] obtain xs1 m1 where
    p1: "emplace_while_full lt grow poison m xs = Done xs1 m1" by blast
  from prefix_done_suffix[OF emplace_while_full_Done[OF p1]] good
  have g1: "\<forall>x \<in> set xs1. \<not> poison x" by blast
  then have g2: "\<forall>x \<in> set (take (unused m1) xs1). \<not> poison x"
    and g3: "\<forall>x \<in> set (drop (unused m1) xs1). \<not> poison x"
    using in_set_takeD in_set_dropD by fast+
  obtain xs2 m2 where ab: "append_batch grow poison m1 xs1 = Done xs2 m2"
    and x2: "xs2 = drop (unused m1) xs1"
    using g2 by (simp add: append_batch_spec)
  from emplace_until_inserted_good[of xs2 poison lt grow "merge_batch lt m2 (size_v m1)"] g3 x2
  obtain xs4 m4 where
    "emplace_until_inserted lt grow poison (merge_batch lt m2 (size_v m1)) xs2 = Done xs4 m4"
    by blast
  with p1 ab show ?thesis by (simp add: insert_pass_def Let_def)
qed

lemma insert_range_good:
  fixes m :: "('k, 'v) flat_map"
  shows "strict_weak_order lt \<Longrightarrow> I1 lt (elems m) \<Longrightarrow> \<forall>x \<in> set xs. \<not> poison x \<Longrightarrow>
     \<exists>m'. insert_range lt grow poison m xs = Done () m'"
proof (induction lt grow poison m xs rule: insert_range.induct)
  case (1 lt grow poison m xs)
  from insert_pass_good[OF "1.prems"(3)] obtain r m1 where
    Done: "insert_pass lt grow poison m xs = Done r m1" by blast
  show ?case
  proof (cases r)
    case None
    with Done show ?thesis by simp
  next
    case (Some xs1)
    have p1: "prefix_done lt grow poison m xs xs1 m1"
      using insert_pass_prefix[OF "1.prems"(1,2), of grow poison xs m1 xs1] Done Some by auto
    have "I1 lt (elems m1)" by (rule prefix_done_I1[OF "1.prems"(1,2) p1])
    moreover have "\<forall>x \<in> set xs1. \<not> poison x"
      using prefix_done_suffix[OF p1] "1.prems"(3) by blast
    ultimately have "\<exists>m'. insert_range lt grow poison m1 xs1 = Done () m'"
      using "1.IH"[OF Done Some "1.prems"(1)] by blast
    with Done Some show ?thesis by simp
  qed
qed

subsection \<open>Bounded iteration, and the loop after a batch that added nothing\<close>

lemma insert_range_fuel_enough:
  "length xs < n \<Longrightarrow>
     insert_range_fuel n lt grow poison m xs = Some (insert_range lt grow poison m xs)"
proof (induction n arbitrary: m xs)
  case 0
  then show ?case by simp
next
  case (Suc n)
  show ?case
  proof (cases "insert_pass lt grow poison m xs")
    case (Raise e m')
    then show ?thesis by simp
  next
    case (Done r m')
    show ?thesis
    proof (cases r)
      case None
      with Done show ?thesis by simp
    next
      case (Some xs')
      from insert_pass_consumes Done Some have "length xs' < length xs" by blast
      with Suc.prems have "length xs' < n" by simp
      from Suc.IH[OF this] Done Some show ?thesis by simp
    qed
  qed
qed

lemma emplace_until_inserted_spec:
  fixes m :: "('k, 'v) flat_map"
  assumes swo: "strict_weak_order lt" and inv: "I1 lt (elems m)"
  shows "emplace_until_inserted lt grow poison m xs =
     (case dropWhile (\<lambda>x. has_key lt (elems m) (fst x)) xs of
        [] \<Rightarrow> Done [] m
      | y # ys \<Rightarrow>
          if poison y then Raise ConstructionFailure m
          else Done ys \<lparr> elems = ins lt y (elems m),
                         unused = (if unused m = 0
                                   then max (grow (capacity m)) (capacity m + 1) - (capacity m + 1)
                                   else unused m - 1) \<rparr>)"
proof (induction xs)
  case Nil
  then show ?case by simp
next
  case (Cons x xs)
  show ?case
  proof (cases "has_key lt (elems m) (fst x)")
    case True
    with Cons.IH show ?thesis by (simp add: emplace_I1[OF swo inv])
  next
    case False
    then show ?thesis by (simp add: emplace_I1[OF swo inv])
  qed
qed

lemma insert_pass_stuck:
  assumes "emplace_while_full lt grow poison m0 xs0 = Done xs1 m1" and "xs1 \<noteq> []"
    and "append_batch grow poison m1 xs1 = Done xs2 m2"
    and "size_v (merge_batch lt m2 (size_v m1)) = size_v m1"
  shows "insert_pass lt grow poison m0 xs0 =
     (case emplace_until_inserted lt grow poison (merge_batch lt m2 (size_v m1)) xs2 of
        Raise e m4 \<Rightarrow> Raise e m4
      | Done xs4 m4 \<Rightarrow> Done (Some xs4) m4)"
  using assms by (simp add: insert_pass_def Let_def)

subsection \<open>The invariant under the public mutations\<close>

lemma I1_distinct_keys:
  assumes swo: "strict_weak_order lt" and inv: "I1 lt xs"
  shows "distinct_keys lt xs"
proof -
  have "\<not> equiv_key lt (fst (xs ! i)) (fst (xs ! j))"
    if "i < length xs" "j < length xs" "i \<noteq> j" for i j
  proof (cases "i < j")
    case True
    with inv that have "lt (fst (xs ! i)) (fst (xs ! j))"
      unfolding I1_def value_compare_def by (simp add: sorted_wrt_iff_nth_less)
    then show ?thesis by (simp add: equiv_key_def)
  next
    case False
    with that have "j < i" by simp
    with inv that have "lt (fst (xs ! j)) (fst (xs ! i))"
      unfolding I1_def value_compare_def by (simp add: sorted_wrt_iff_nth_less)
    then show ?thesis by (simp add: equiv_key_def)
  qed
  then show ?thesis unfolding distinct_keys_def by blast
qed

lemma state_after_first_of: "state_after (first_of r) = state_after r"
  by (cases r) (simp_all add: first_of_def)

lemma subscript_emplace:
  "subscript lt grow poison dv m key = first_of (emplace lt grow poison m (key, dv))"
  by (auto simp: subscript_def lower_bound_def emplace_def first_of_def vec_emplace_def Let_def)

lemma emplace_state_I1:
  fixes m :: "('k, 'v) flat_map"
  assumes "strict_weak_order lt" and "I1 lt (elems m)"
  shows "I1 lt (elems (state_after (emplace lt grow poison m x)))"
  using emplace_I1[OF assms, of grow poison x] I1_ins[OF assms, of x] assms(2) by simp

lemma insert_range_state_I1:
  fixes m :: "('k, 'v) flat_map"
  assumes swo: "strict_weak_order lt" and inv: "I1 lt (elems m)"
  shows "I1 lt (elems (state_after (insert_range lt grow poison m xs)))"
proof (cases "insert_range lt grow poison m xs")
  case (Done u m')
  with insert_range_prefix[OF swo inv, of grow poison xs m'] prefix_done_I1[OF swo inv]
  show ?thesis by auto
next
  case (Raise e m')
  with insert_range_prefix[OF swo inv, of grow poison xs m' e] prefix_done_I1[OF swo inv]
  show ?thesis by auto
qed

lemma I1_take_drop:
  assumes inv: "I1 lt xs" and le: "a \<le> b"
  shows "I1 lt (take a xs @ drop b xs)"
proof -
  have "value_compare lt x y" if "x \<in> set (take a xs)" "y \<in> set (drop b xs)" for x y
  proof -
    from that(1) obtain i where i: "i < a" "i < length xs" "x = xs ! i"
      by (auto simp: in_set_conv_nth)
    from that(2) obtain j where "j < length (drop b xs)" "y = drop b xs ! j"
      unfolding in_set_conv_nth by blast
    then have j: "b + j < length xs" "y = xs ! (b + j)" by simp_all
    from i j le have "i < b + j" by simp
    with inv i j show ?thesis unfolding I1_def by (simp add: sorted_wrt_iff_nth_less)
  qed
  moreover have "sorted_wrt (value_compare lt) (take a xs)" "sorted_wrt (value_compare lt) (drop b xs)"
    using inv unfolding I1_def by (simp_all add: sorted_wrt_take sorted_wrt_drop)
  ultimately show ?thesis unfolding I1_def sorted_wrt_append by blast
qed

lemma vec_erase_range_I1:
  "I1 lt (elems m) \<Longrightarrow> I1 lt (elems (snd (vec_erase_range m a b)))"
  by (simp add: vec_erase_range_def I1_take_drop)

lemma vec_erase_I1: "I1 lt (elems m) \<Longrightarrow> I1 lt (elems (snd (vec_erase m a)))"
  by (simp add: vec_erase_def vec_erase_range_I1)

lemma perform_I1:
  fixes m :: "('k, 'v) flat_map"
  assumes swo: "strict_weak_order lt" and inv: "I1 lt (elems m)" and valid: "valid_mutation m c"
  shows "I1 lt (elems (perform lt grow poison dk dv m c))"
proof (cases c)
  case (Subscript key)
  then show ?thesis
    by (simp add: subscript_emplace state_after_first_of emplace_state_I1[OF swo inv])
next
  case (Insert v)
  then show ?thesis by (simp add: insert_value_def emplace_state_I1[OF swo inv])
next
  case (InsertHint hint v)
  with valid have "hint \<le> size_v m" by simp
  from emplace_hint_emplace[OF swo inv this] InsertHint show ?thesis
    by (simp add: insert_hint_def state_after_first_of emplace_state_I1[OF swo inv])
next
  case (InsertRange xs)
  then show ?thesis by (simp only: perform.simps insert_range_state_I1[OF swo inv])
next
  case (InsertList il)
  then show ?thesis by (simp only: perform.simps insert_list_def insert_range_state_I1[OF swo inv])
next
  case (Emplace v)
  then show ?thesis by (simp add: emplace_state_I1[OF swo inv])
next
  case EmplaceDefault
  then show ?thesis by (simp add: emplace_default_def emplace_state_I1[OF swo inv] inv)
next
  case (EmplaceHint hint v)
  with valid have "hint \<le> size_v m" by simp
  from emplace_hint_emplace[OF swo inv this] EmplaceHint show ?thesis
    by (simp add: state_after_first_of emplace_state_I1[OF swo inv])
next
  case (EmplaceHintDefault hint)
  with valid have "hint \<le> size_v m" by simp
  from emplace_hint_emplace[OF swo inv this] EmplaceHintDefault show ?thesis
    by (simp add: emplace_hint_default_def state_after_first_of emplace_state_I1[OF swo inv] inv)
next
  case (Erase it)
  then show ?thesis by (simp add: erase_def vec_erase_I1[OF inv])
next
  case (EraseKey key)
  then show ?thesis by (simp add: erase_key_def Let_def erase_def vec_erase_I1[OF inv] inv)
next
  case (EraseRange a b)
  then show ?thesis by (simp add: erase_range_def vec_erase_range_I1[OF inv])
next
  case Clear
  then show ?thesis by (simp add: clear_def vec_clear_def I1_def)
qed

lemma perform_all_I1:
  fixes m :: "('k, 'v) flat_map"
  assumes swo: "strict_weak_order lt"
  shows "I1 lt (elems m) \<Longrightarrow> valid_mutations lt grow poison dk dv m cs \<Longrightarrow>
         I1 lt (elems (perform_all lt grow poison dk dv m cs))"
proof (induction cs arbitrary: m)
  case Nil
  then show ?case by simp
next
  case (Cons c cs)
  from Cons.prems have v: "valid_mutation m c"
    and vs: "valid_mutations lt grow poison dk dv (perform lt grow poison dk dv m c) cs"
    by simp_all
  from Cons.IH[OF perform_I1[OF swo Cons.prems(1) v] vs] show ?case by simp
qed

subsection \<open>Traversal\<close>

lemma traverse_to_end:
  "it \<le> size_v m \<Longrightarrow> traverse m it (size_v m) = drop it (elems m)"
proof (induction "size_v m - it" arbitrary: it)
  case 0
  then show ?case by (simp add: size_v_def)
next
  case (Suc n)
  then have lt: "it < size_v m" by simp
  have "traverse m (it + 1) (size_v m) = drop (it + 1) (elems m)"
    using Suc.hyps(1)[of "it + 1"] Suc.hyps(2) lt by simp
  with lt show ?case
    by (subst traverse.simps) (simp add: size_v_def Cons_nth_drop_Suc)
qed

lemma reverse_traverse_to_begin:
  "b \<le> size_v m \<Longrightarrow> reverse_traverse m b 0 = rev (take b (elems m))"
proof (induction b)
  case 0
  then show ?case by simp
next
  case (Suc b)
  then show ?case by (simp add: size_v_def take_Suc_conv_app_nth)
qed

lemma forward_traversals:
  "traverse m (begin_it m) (end_it m) = elems m"
  "traverse m (begin_const m) (end_const m) = elems m"
  "traverse m (cbegin m) (cend m) = elems m"
  by (simp_all add: begin_it_def end_it_def begin_const_def end_const_def cbegin_def cend_def
      traverse_to_end del: traverse.simps)

lemma reverse_traversals:
  "reverse_traverse m (rbegin m) (rend m) = rev (elems m)"
  "reverse_traverse m (crbegin m) (crend m) = rev (elems m)"
  by (simp_all add: rbegin_def rend_def crbegin_def crend_def reverse_traverse_to_begin)
     (simp_all add: size_v_def)

lemma const_reverse_traversal_empty:
  "reverse_traverse m (rbegin_const m) (rend_const m) = []"
  by (cases "size_v m") (simp_all add: rbegin_const_def rend_const_def)

section \<open>The claims\<close>

text \<open>
  C10. \<^verbatim>\<open>emplace()\<close> on a map that satisfies I1. The default entry \<open>(dk, dv)\<close> is built
  first: should that throw, the exception leaves the call and the map is unchanged, whether
  the default key is stored or not. Otherwise: when a stored key is equivalent to the
  default key, nothing changes and the call returns the position of that entry with the
  flag \<open>False\<close>; when none is, the default entry is inserted at the position returned, with
  the flag \<open>True\<close>, the other entries keep their order, and I1 holds again.
\<close>

theorem emplace_default_inserts_iff_absent:
  fixes m :: "('k, 'v) flat_map"
  assumes "strict_weak_order lt" and "I1 lt (elems m)"
  shows "(poison (dk, dv) \<longrightarrow>
            emplace_default lt grow poison dk dv m = Raise ConstructionFailure m) \<and>
         (\<not> poison (dk, dv) \<and> has_key lt (elems m) dk \<longrightarrow>
            (\<exists>pos. emplace_default lt grow poison dk dv m = Done (pos, False) m \<and>
                   pos < size_v m \<and> equiv_key lt (fst (elems m ! pos)) dk)) \<and>
         (\<not> poison (dk, dv) \<and> \<not> has_key lt (elems m) dk \<longrightarrow>
            (\<exists>pos m'. emplace_default lt grow poison dk dv m = Done (pos, True) m' \<and>
                   pos \<le> size_v m \<and> elems m' ! pos = (dk, dv) \<and>
                   elems m' = take pos (elems m) @ (dk, dv) # drop pos (elems m) \<and>
                   I1 lt (elems m')))"
proof -
  have throws: "emplace_default lt grow poison dk dv m = Raise ConstructionFailure m"
    if "poison (dk, dv)"
    using that by (simp add: emplace_default_def)
  have present: "\<exists>pos. emplace_default lt grow poison dk dv m = Done (pos, False) m \<and>
                   pos < size_v m \<and> equiv_key lt (fst (elems m ! pos)) dk"
    if "\<not> poison (dk, dv)" "has_key lt (elems m) dk"
  proof -
    from that(2) have "has_key lt (elems m) (fst (dk, dv))" by simp
    from emplace_present[OF assms this, of grow poison] that(1) show ?thesis
      by (simp add: emplace_default_def)
  qed
  have absent: "\<exists>pos m'. emplace_default lt grow poison dk dv m = Done (pos, True) m' \<and>
                   pos \<le> size_v m \<and> elems m' ! pos = (dk, dv) \<and>
                   elems m' = take pos (elems m) @ (dk, dv) # drop pos (elems m) \<and>
                   I1 lt (elems m')"
    if "\<not> poison (dk, dv)" "\<not> has_key lt (elems m) dk"
  proof -
    from that(2) have "\<not> has_key lt (elems m) (fst (dk, dv))" by simp
    from emplace_absent[of lt m "(dk, dv)" poison grow, OF assms this that(1)]
    obtain pos m' where "emplace lt grow poison m (dk, dv) = Done (pos, True) m'"
      "pos \<le> size_v m" "elems m' = take pos (elems m) @ (dk, dv) # drop pos (elems m)"
      "elems m' ! pos = (dk, dv)" "I1 lt (elems m')"
      by blast
    with that(1) show ?thesis by (auto simp: emplace_default_def)
  qed
  from throws present absent show ?thesis by blast
qed

theorem emplace_default_inserts_iff_absent_witness:
  "strict_weak_order ((<) :: nat \<Rightarrow> nat \<Rightarrow> bool) \<and>
   I1 (<) [(1::nat, 10::nat), (3, 30)] \<and> \<not> has_key (<) [(1::nat, 10::nat), (3, 30)] 0 \<and>
   has_key (<) [(0::nat, 5::nat), (1, 10), (3, 30)] 0 \<and>
   emplace_default (<) (\<lambda>c. 2 * c) (\<lambda>x. False) 0 0 \<lparr>elems = [(1::nat, 10::nat), (3, 30)], unused = 0\<rparr>
     = Done (0, True) \<lparr>elems = [(0, 0), (1, 10), (3, 30)], unused = 1\<rparr> \<and>
   emplace_default (<) (\<lambda>c. 2 * c) (\<lambda>x. False) 0 0 \<lparr>elems = [(0::nat, 5::nat), (1, 10), (3, 30)], unused = 1\<rparr>
     = Done (0, False) \<lparr>elems = [(0, 5), (1, 10), (3, 30)], unused = 1\<rparr> \<and>
   emplace_default (<) (\<lambda>c. 2 * c) (\<lambda>x. snd x = 0) 0 0 \<lparr>elems = [(0::nat, 5::nat), (1, 10), (3, 30)], unused = 1\<rparr>
     = Raise ConstructionFailure \<lparr>elems = [(0, 5), (1, 10), (3, 30)], unused = 1\<rparr>"
proof -
  have swo: "strict_weak_order ((<) :: nat \<Rightarrow> nat \<Rightarrow> bool)" by (rule swo_less_nat)
  have i1: "I1 (<) (elems \<lparr>elems = [(1::nat, 10::nat), (3, 30)], unused = 0\<rparr>)"
    by (simp add: I1_def value_compare_def)
  have i2: "I1 (<) (elems \<lparr>elems = [(0::nat, 5::nat), (1, 10), (3, 30)], unused = 1\<rparr>)"
    by (simp add: I1_def value_compare_def)
  have e1: "emplace_default (<) (\<lambda>c. 2 * c) (\<lambda>x. False) 0 0 \<lparr>elems = [(1::nat, 10::nat), (3, 30)], unused = 0\<rparr>
     = Done (0, True) \<lparr>elems = [(0, 0), (1, 10), (3, 30)], unused = 1\<rparr>"
    by code_simp
  have e2: "emplace_default (<) (\<lambda>c. 2 * c) (\<lambda>x. False) 0 0 \<lparr>elems = [(0::nat, 5::nat), (1, 10), (3, 30)], unused = 1\<rparr>
     = Done (0, False) \<lparr>elems = [(0, 5), (1, 10), (3, 30)], unused = 1\<rparr>"
    by code_simp
  have bad: "(\<lambda>x :: nat \<times> nat. snd x = 0) (0, 0)" by simp
  from emplace_default_inserts_iff_absent[OF swo i2, of "\<lambda>x. snd x = 0" 0 0 "\<lambda>c. 2 * c"] bad
  have e3: "emplace_default (<) (\<lambda>c. 2 * c) (\<lambda>x. snd x = 0) 0 0
       \<lparr>elems = [(0::nat, 5::nat), (1, 10), (3, 30)], unused = 1\<rparr>
     = Raise ConstructionFailure \<lparr>elems = [(0, 5), (1, 10), (3, 30)], unused = 1\<rparr>"
    by blast
  from emplace_default_inserts_iff_absent[OF swo i1, of "\<lambda>x. False" 0 0 "\<lambda>c. 2 * c"]
       emplace_default_inserts_iff_absent[OF swo i2, of "\<lambda>x. False" 0 0 "\<lambda>c. 2 * c"]
  show ?thesis using swo i1 e1 e2 e3 by (simp add: has_key_def equiv_key_def)
qed

text \<open>
  C7. On a map that satisfies I1, \<^verbatim>\<open>at(key)\<close> throws \<^verbatim>\<open>std::out_of_range\<close> (the spec's
  KeyNotFound) exactly when no stored key is equivalent to \<open>key\<close>; when one is, it returns
  the value of that entry; the map is the same afterwards in both cases.
\<close>

theorem at_throws_iff_absent:
  fixes m :: "('k, 'v) flat_map"
  assumes "strict_weak_order lt" and "I1 lt (elems m)"
  shows "((\<exists>m'. at lt m key = Raise OutOfRange m') \<longleftrightarrow> \<not> has_key lt (elems m) key) \<and>
         (has_key lt (elems m) key \<longrightarrow>
            (\<exists>pos. pos < size_v m \<and> equiv_key lt (fst (elems m ! pos)) key \<and>
                   at lt m key = Done (pos, snd (elems m ! pos)) m)) \<and>
         state_after (at lt m key) = m"
proof -
  have bf: "binary_find lt (elems m) key =
     (if has_key lt (elems m) key then length (takeWhile (key_below lt key) (elems m))
      else length (elems m))"
    by (rule binary_find_I1[OF assms])
  show ?thesis
  proof (cases "has_key lt (elems m) key")
    case True
    from present_position[OF assms True]
    have p: "length (takeWhile (key_below lt key) (elems m)) < length (elems m)"
      and e: "equiv_key lt (fst (elems m ! length (takeWhile (key_below lt key) (elems m)))) key"
      by auto
    have "at lt m key = Done (length (takeWhile (key_below lt key) (elems m)),
            snd (elems m ! length (takeWhile (key_below lt key) (elems m)))) m"
      using True p by (simp add: at_def bf size_v_def Let_def)
    with True p e show ?thesis by (auto simp: size_v_def)
  next
    case False
    then have "at lt m key = Raise OutOfRange m" by (simp add: at_def bf size_v_def Let_def)
    with False show ?thesis by simp
  qed
qed

theorem at_throws_iff_absent_witness:
  "strict_weak_order ((<) :: nat \<Rightarrow> nat \<Rightarrow> bool) \<and> I1 (<) [(1::nat, 10::nat), (3, 30)] \<and>
   at (<) \<lparr>elems = [(1::nat, 10::nat), (3, 30)], unused = 0\<rparr> 3
     = Done (1, 30) \<lparr>elems = [(1, 10), (3, 30)], unused = 0\<rparr> \<and>
   at (<) \<lparr>elems = [(1::nat, 10::nat), (3, 30)], unused = 0\<rparr> 2
     = Raise OutOfRange \<lparr>elems = [(1, 10), (3, 30)], unused = 0\<rparr>"
proof -
  have swo: "strict_weak_order ((<) :: nat \<Rightarrow> nat \<Rightarrow> bool)" by (rule swo_less_nat)
  have i1: "I1 (<) (elems \<lparr>elems = [(1::nat, 10::nat), (3, 30)], unused = 0\<rparr>)"
    by (simp add: I1_def value_compare_def)
  have e1: "at (<) \<lparr>elems = [(1::nat, 10::nat), (3, 30)], unused = 0\<rparr> 3
     = Done (1, 30) \<lparr>elems = [(1, 10), (3, 30)], unused = 0\<rparr>"
    by (simp add: at_def binary_find_def std_lower_bound_def lbl_eval entry_key_compare_def size_v_def)
  have e2: "at (<) \<lparr>elems = [(1::nat, 10::nat), (3, 30)], unused = 0\<rparr> 2
     = Raise OutOfRange \<lparr>elems = [(1, 10), (3, 30)], unused = 0\<rparr>"
    by (simp add: at_def binary_find_def std_lower_bound_def lbl_eval entry_key_compare_def size_v_def)
  from at_throws_iff_absent[OF swo i1, of 3] at_throws_iff_absent[OF swo i1, of 2]
  show ?thesis using swo i1 e1 e2 by simp
qed

text \<open>
  C8. On a map that satisfies I1 and for every hint from \<^verbatim>\<open>begin()\<close> to \<^verbatim>\<open>end()\<close>,
  \<^verbatim>\<open>emplace_hint\<close> does what \<^verbatim>\<open>emplace\<close> does and returns the iterator \<^verbatim>\<open>emplace\<close> returns:
  it leaves the map unchanged and returns the position of the equivalent entry when there
  is one, and inserts the candidate and returns its position when there is none (the map is
  unchanged should the construction throw). When the key at the hint is equivalent to the
  candidate's, the hint itself is returned and nothing is inserted.
\<close>

theorem emplace_hint_refines_emplace:
  fixes m :: "('k, 'v) flat_map"
  assumes "strict_weak_order lt" and "I1 lt (elems m)" and "hint \<le> size_v m"
  shows "emplace_hint lt grow poison m hint x = first_of (emplace lt grow poison m x) \<and>
         (has_key lt (elems m) (fst x) \<longrightarrow>
            (\<exists>pos. emplace_hint lt grow poison m hint x = Done pos m \<and> pos < size_v m \<and>
                   equiv_key lt (fst (elems m ! pos)) (fst x))) \<and>
         (\<not> has_key lt (elems m) (fst x) \<and> \<not> poison x \<longrightarrow>
            (\<exists>pos m'. emplace_hint lt grow poison m hint x = Done pos m' \<and> pos \<le> size_v m \<and>
                   elems m' = take pos (elems m) @ x # drop pos (elems m) \<and>
                   elems m' ! pos = x \<and> I1 lt (elems m'))) \<and>
         (\<not> has_key lt (elems m) (fst x) \<and> poison x \<longrightarrow>
            emplace_hint lt grow poison m hint x = Raise ConstructionFailure m) \<and>
         (hint < size_v m \<and> equiv_key lt (fst (elems m ! hint)) (fst x) \<longrightarrow>
            emplace_hint lt grow poison m hint x = Done hint m)"
proof -
  have eq: "emplace_hint lt grow poison m hint x = first_of (emplace lt grow poison m x)"
    by (rule emplace_hint_emplace[OF assms])
  have c1: "\<exists>pos. emplace_hint lt grow poison m hint x = Done pos m \<and> pos < size_v m \<and>
                   equiv_key lt (fst (elems m ! pos)) (fst x)"
    if "has_key lt (elems m) (fst x)"
    using emplace_present[OF assms(1,2) that, of grow poison] unfolding eq
    by (auto simp: first_of_def)
  have c2: "\<exists>pos m'. emplace_hint lt grow poison m hint x = Done pos m' \<and> pos \<le> size_v m \<and>
                   elems m' = take pos (elems m) @ x # drop pos (elems m) \<and>
                   elems m' ! pos = x \<and> I1 lt (elems m')"
    if "\<not> has_key lt (elems m) (fst x)" "\<not> poison x"
    using emplace_absent[of lt m x poison grow, OF assms(1,2) that] unfolding eq
    by (auto simp: first_of_def)
  have c3: "emplace_hint lt grow poison m hint x = Raise ConstructionFailure m"
    if "\<not> has_key lt (elems m) (fst x)" "poison x"
    using emplace_throws[of lt m x poison grow, OF assms(1,2) that] unfolding eq
    by (simp add: first_of_def)
  have c4: "emplace_hint lt grow poison m hint x = Done hint m"
    if "hint < size_v m" "equiv_key lt (fst (elems m ! hint)) (fst x)"
    using that by (simp add: emplace_hint_def equiv_key_def)
  from eq c1 c2 c3 c4 show ?thesis by blast
qed

theorem emplace_hint_refines_emplace_witness:
  "strict_weak_order ((<) :: nat \<Rightarrow> nat \<Rightarrow> bool) \<and> I1 (<) [(1::nat, 10::nat), (3, 30)] \<and>
   emplace_hint (<) (\<lambda>c. 2 * c) (\<lambda>x. False) \<lparr>elems = [(1::nat, 10::nat), (3, 30)], unused = 0\<rparr> 1 (2, 20)
     = Done 1 \<lparr>elems = [(1, 10), (2, 20), (3, 30)], unused = 1\<rparr> \<and>
   emplace_hint (<) (\<lambda>c. 2 * c) (\<lambda>x. False) \<lparr>elems = [(1::nat, 10::nat), (3, 30)], unused = 0\<rparr> 0 (2, 20)
     = first_of (emplace (<) (\<lambda>c. 2 * c) (\<lambda>x. False) \<lparr>elems = [(1::nat, 10::nat), (3, 30)], unused = 0\<rparr> (2, 20)) \<and>
   emplace_hint (<) (\<lambda>c. 2 * c) (\<lambda>x. False) \<lparr>elems = [(1::nat, 10::nat), (3, 30)], unused = 0\<rparr> 1 (3, 99)
     = Done 1 \<lparr>elems = [(1, 10), (3, 30)], unused = 0\<rparr>"
proof -
  have swo: "strict_weak_order ((<) :: nat \<Rightarrow> nat \<Rightarrow> bool)" by (rule swo_less_nat)
  have i1: "I1 (<) (elems \<lparr>elems = [(1::nat, 10::nat), (3, 30)], unused = 0\<rparr>)"
    by (simp add: I1_def value_compare_def)
  have h0: "0 \<le> size_v \<lparr>elems = [(1::nat, 10::nat), (3, 30)], unused = 0\<rparr>"
    and h1: "1 \<le> size_v \<lparr>elems = [(1::nat, 10::nat), (3, 30)], unused = 0\<rparr>"
    by (simp_all add: size_v_def)
  have e1: "emplace_hint (<) (\<lambda>c. 2 * c) (\<lambda>x. False) \<lparr>elems = [(1::nat, 10::nat), (3, 30)], unused = 0\<rparr> 1 (2, 20)
     = Done 1 \<lparr>elems = [(1, 10), (2, 20), (3, 30)], unused = 1\<rparr>"
    by (simp add: emplace_hint_def size_v_def vec_emplace_def capacity_def)
  have e2: "emplace_hint (<) (\<lambda>c. 2 * c) (\<lambda>x. False) \<lparr>elems = [(1::nat, 10::nat), (3, 30)], unused = 0\<rparr> 1 (3, 99)
     = Done 1 \<lparr>elems = [(1, 10), (3, 30)], unused = 0\<rparr>"
    by (simp add: emplace_hint_def size_v_def)
  from emplace_hint_refines_emplace[OF swo i1 h0, of "\<lambda>c. 2 * c" "\<lambda>x. False" "(2, 20)"]
       emplace_hint_refines_emplace[OF swo i1 h1, of "\<lambda>c. 2 * c" "\<lambda>x. False" "(3, 99)"]
  show ?thesis using swo i1 e1 e2 by simp
qed

text \<open>
  C5. When an element among those the append step would take (the first \<open>unused\<close> elements
  of the input that is left) throws on construction, the append loop stops with the good
  elements before it appended to the tail, the rollback loop removes exactly these, so the
  vector is again what it was before the step, and the failure leaves
  \<^verbatim>\<open>insert(begin, end)\<close> with that vector.
\<close>

theorem append_batch_rolls_back:
  assumes "\<exists>x \<in> set (take (unused m) xs). poison x"
  shows "append_loop grow poison m (capacity m) (size_v m) xs
           = Raise ConstructionFailure
               \<lparr> elems = elems m @ takeWhile (\<lambda>x. \<not> poison x) xs,
                 unused = unused m - length (takeWhile (\<lambda>x. \<not> poison x) xs) \<rparr> \<and>
         pop_loop \<lparr> elems = elems m @ takeWhile (\<lambda>x. \<not> poison x) xs,
                    unused = unused m - length (takeWhile (\<lambda>x. \<not> poison x) xs) \<rparr>
                  (size_v m + length (takeWhile (\<lambda>x. \<not> poison x) xs)) (size_v m) = m \<and>
         append_batch grow poison m xs = Raise ConstructionFailure m \<and>
         (\<forall>m0 xs0. emplace_while_full lt grow poison m0 xs0 = Done xs m \<longrightarrow>
              insert_range lt grow poison m0 xs0 = Raise ConstructionFailure m)"
proof (intro conjI allI impI)
  have d: "capacity m - size_v m = unused m" by (simp add: capacity_def size_v_def)
  show "append_loop grow poison m (capacity m) (size_v m) xs
           = Raise ConstructionFailure
               \<lparr> elems = elems m @ takeWhile (\<lambda>x. \<not> poison x) xs,
                 unused = unused m - length (takeWhile (\<lambda>x. \<not> poison x) xs) \<rparr>"
    using append_loop_spec[of "capacity m" "size_v m" m grow poison xs] assms by (simp add: d)
  have "length (takeWhile (\<lambda>x. \<not> poison x) xs) < unused m"
    using length_takeWhile_good[of "unused m" xs poison] assms by blast
  then show "pop_loop \<lparr> elems = elems m @ takeWhile (\<lambda>x. \<not> poison x) xs,
                    unused = unused m - length (takeWhile (\<lambda>x. \<not> poison x) xs) \<rparr>
                  (size_v m + length (takeWhile (\<lambda>x. \<not> poison x) xs)) (size_v m) = m"
    by (simp add: pop_loop_spec size_v_def)
  show "append_batch grow poison m xs = Raise ConstructionFailure m"
    using assms by (simp add: append_batch_spec)
next
  fix m0 xs0 assume "emplace_while_full lt grow poison m0 xs0 = Done xs m"
  from insert_pass_append_fails[OF this assms]
  show "insert_range lt grow poison m0 xs0 = Raise ConstructionFailure m" by simp
qed

theorem append_batch_rolls_back_witness:
  "(\<exists>x \<in> set (take (unused \<lparr>elems = [(5::nat, 50::nat)], unused = 3\<rparr>)
              [(1::nat, 10::nat), (7, 70), (2, 99), (3, 30)]). snd x = 99) \<and>
   append_loop (\<lambda>c. 2 * c) (\<lambda>x. snd x = 99) \<lparr>elems = [(5::nat, 50::nat)], unused = 3\<rparr> 4 1
       [(1, 10), (7, 70), (2, 99), (3, 30)]
     = Raise ConstructionFailure \<lparr>elems = [(5, 50), (1, 10), (7, 70)], unused = 1\<rparr> \<and>
   pop_loop \<lparr>elems = [(5::nat, 50::nat), (1, 10), (7, 70)], unused = 1\<rparr> 3 1
     = \<lparr>elems = [(5, 50)], unused = 3\<rparr> \<and>
   append_batch (\<lambda>c. 2 * c) (\<lambda>x. snd x = 99) \<lparr>elems = [(5::nat, 50::nat)], unused = 3\<rparr>
       [(1, 10), (7, 70), (2, 99), (3, 30)]
     = Raise ConstructionFailure \<lparr>elems = [(5, 50)], unused = 3\<rparr> \<and>
   insert_range (<) (\<lambda>c. 2 * c) (\<lambda>x. snd x = 99) \<lparr>elems = [(5::nat, 50::nat)], unused = 3\<rparr>
       [(1, 10), (7, 70), (2, 99), (3, 30)]
     = Raise ConstructionFailure \<lparr>elems = [(5, 50)], unused = 3\<rparr>"
proof -
  have h: "\<exists>x \<in> set (take (unused \<lparr>elems = [(5::nat, 50::nat)], unused = 3\<rparr>)
              [(1::nat, 10::nat), (7, 70), (2, 99), (3, 30)]). snd x = 99"
    by (simp add: numeral_3_eq_3)
  have p: "emplace_while_full (<) (\<lambda>c. 2 * c) (\<lambda>x. snd x = 99) \<lparr>elems = [(5::nat, 50::nat)], unused = 3\<rparr>
       [(1, 10), (7, 70), (2, 99), (3, 30)] = Done [(1, 10), (7, 70), (2, 99), (3, 30)]
       \<lparr>elems = [(5::nat, 50::nat)], unused = 3\<rparr>"
    by (simp add: size_v_def capacity_def)
  have c1: "append_loop (\<lambda>c. 2 * c) (\<lambda>x. snd x = 99) \<lparr>elems = [(5::nat, 50::nat)], unused = 3\<rparr> 4 1
       [(1, 10), (7, 70), (2, 99), (3, 30)]
     = Raise ConstructionFailure \<lparr>elems = [(5, 50), (1, 10), (7, 70)], unused = 1\<rparr>"
    by code_simp
  have c2: "pop_loop \<lparr>elems = [(5::nat, 50::nat), (1, 10), (7, 70)], unused = 1\<rparr> 3 1
     = \<lparr>elems = [(5, 50)], unused = 3\<rparr>"
    by code_simp
  from append_batch_rolls_back[OF h, of "\<lambda>c. 2 * c" "(<)"] p
  have "append_batch (\<lambda>c. 2 * c) (\<lambda>x. snd x = 99) \<lparr>elems = [(5::nat, 50::nat)], unused = 3\<rparr>
       [(1, 10), (7, 70), (2, 99), (3, 30)]
     = Raise ConstructionFailure \<lparr>elems = [(5, 50)], unused = 3\<rparr> \<and>
   insert_range (<) (\<lambda>c. 2 * c) (\<lambda>x. snd x = 99) \<lparr>elems = [(5::nat, 50::nat)], unused = 3\<rparr>
       [(1, 10), (7, 70), (2, 99), (3, 30)]
     = Raise ConstructionFailure \<lparr>elems = [(5, 50)], unused = 3\<rparr>"
    by blast
  with h c1 c2 show ?thesis by blast
qed

text \<open>
  C2. On a map that satisfies I1 and for an input none of whose elements throws on
  construction, \<^verbatim>\<open>insert(begin, end)\<close> returns, and with the vector (entries, their values,
  their order, and the capacity) that calling \<^verbatim>\<open>emplace\<close> on each element in input order
  leaves; I1 holds again. Whatever the input, a call that returns has left that vector.
\<close>

theorem insert_range_equals_emplace_each:
  fixes m :: "('k, 'v) flat_map"
  assumes "strict_weak_order lt" and "I1 lt (elems m)"
  shows "((\<forall>x \<in> set xs. \<not> poison x) \<longrightarrow>
            insert_range lt grow poison m xs = emplace_each lt grow poison m xs \<and>
            (\<exists>m'. insert_range lt grow poison m xs = Done () m' \<and> I1 lt (elems m'))) \<and>
         (\<forall>m'. insert_range lt grow poison m xs = Done () m' \<longrightarrow>
            emplace_each lt grow poison m xs = Done () m')"
proof -
  have ret: "emplace_each lt grow poison m xs = Done () m'"
    if "insert_range lt grow poison m xs = Done () m'" for m'
    using insert_range_prefix[OF assms, of grow poison xs m'] that
    by (simp add: prefix_done_def)
  have "insert_range lt grow poison m xs = emplace_each lt grow poison m xs \<and>
        (\<exists>m'. insert_range lt grow poison m xs = Done () m' \<and> I1 lt (elems m'))"
    if good: "\<forall>x \<in> set xs. \<not> poison x"
  proof -
    from insert_range_good[OF assms good] obtain m' where
      d: "insert_range lt grow poison m xs = Done () m'" by blast
    from ret[OF d] have e: "emplace_each lt grow poison m xs = Done () m'" .
    from emplace_each_I1[OF assms e] d e show ?thesis by simp
  qed
  with ret show ?thesis by blast
qed

theorem insert_range_equals_emplace_each_witness:
  "strict_weak_order ((<) :: nat \<Rightarrow> nat \<Rightarrow> bool) \<and> I1 (<) [(1::nat, 0::nat)] \<and>
   insert_range (<) (\<lambda>c. 2 * c) (\<lambda>x. False) \<lparr>elems = [(1::nat, 0::nat)], unused = 1\<rparr>
       [(1, 1), (3, 2), (1, 3), (2, 5), (3, 7), (0, 0)]
     = emplace_each (<) (\<lambda>c. 2 * c) (\<lambda>x. False) \<lparr>elems = [(1::nat, 0::nat)], unused = 1\<rparr>
       [(1, 1), (3, 2), (1, 3), (2, 5), (3, 7), (0, 0)] \<and>
   emplace_each (<) (\<lambda>c. 2 * c) (\<lambda>x. False) \<lparr>elems = [(1::nat, 0::nat)], unused = 1\<rparr>
       [(1, 1), (3, 2), (1, 3), (2, 5), (3, 7), (0, 0)]
     = Done () \<lparr>elems = [(0, 0), (1, 0), (2, 5), (3, 2)], unused = 0\<rparr>"
proof -
  have swo: "strict_weak_order ((<) :: nat \<Rightarrow> nat \<Rightarrow> bool)" by (rule swo_less_nat)
  have i1: "I1 (<) (elems \<lparr>elems = [(1::nat, 0::nat)], unused = 1\<rparr>)"
    by (simp add: I1_def value_compare_def)
  have g: "\<forall>x \<in> set [(1::nat, 1::nat), (3, 2), (1, 3), (2, 5), (3, 7), (0, 0)]. \<not> (\<lambda>x. False) x"
    by simp
  have e: "emplace_each (<) (\<lambda>c. 2 * c) (\<lambda>x. False) \<lparr>elems = [(1::nat, 0::nat)], unused = 1\<rparr>
       [(1, 1), (3, 2), (1, 3), (2, 5), (3, 7), (0, 0)]
     = Done () \<lparr>elems = [(0, 0), (1, 0), (2, 5), (3, 2)], unused = 0\<rparr>"
    by code_simp
  from insert_range_equals_emplace_each[OF swo i1,
      of "[(1, 1), (3, 2), (1, 3), (2, 5), (3, 7), (0, 0)]" "\<lambda>x. False" "\<lambda>c. 2 * c"] g
  have "insert_range (<) (\<lambda>c. 2 * c) (\<lambda>x. False) \<lparr>elems = [(1::nat, 0::nat)], unused = 1\<rparr>
       [(1, 1), (3, 2), (1, 3), (2, 5), (3, 7), (0, 0)]
     = emplace_each (<) (\<lambda>c. 2 * c) (\<lambda>x. False) \<lparr>elems = [(1::nat, 0::nat)], unused = 1\<rparr>
       [(1, 1), (3, 2), (1, 3), (2, 5), (3, 7), (0, 0)]"
    by blast
  with swo i1 e show ?thesis by simp
qed

text \<open>
  C3, as stated: the map holds, when the error reaches the caller, exactly the entries it
  held before the call. It does not: an empty map without capacity takes the good first
  element by \<^verbatim>\<open>emplace\<close>, the second element throws, and the first stays in the map.
\<close>

theorem insert_range_partial_entries_counterexample:
  "insert_range (<) (\<lambda>c. 2 * c) (\<lambda>x. snd x = 99) \<lparr>elems = [], unused = 0\<rparr>
       [(1::nat, 1::nat), (2, 99)]
     = Raise ConstructionFailure \<lparr>elems = [(1, 1)], unused = 0\<rparr> \<and>
   elems \<lparr>elems = [(1::nat, 1::nat)], unused = 0\<rparr> \<noteq> elems \<lparr>elems = [], unused = 0\<rparr>"
proof -
  have "insert_range (<) (\<lambda>c. 2 * c) (\<lambda>x. snd x = 99) \<lparr>elems = [], unused = 0\<rparr>
       [(1::nat, 1::nat), (2, 99)]
     = Raise ConstructionFailure \<lparr>elems = [(1, 1)], unused = 0\<rparr>"
    by code_simp
  then show ?thesis by simp
qed

text \<open>
  C3, amended. When \<^verbatim>\<open>insert(begin, end)\<close> on a map that satisfies I1 leaves by an
  exception, the map holds what calling \<^verbatim>\<open>emplace\<close> on the elements of a proper prefix of
  the input leaves, the elements processed before the step that failed, and I1 holds; the
  entries of earlier steps stay visible. The map is exactly what it was before the call
  when the element that throws is among the first \<^verbatim>\<open>capacity() - size()\<close> elements of the
  input, which the first append step takes.
\<close>

theorem insert_range_failure_state:
  fixes m :: "('k, 'v) flat_map"
  assumes "strict_weak_order lt" and "I1 lt (elems m)"
  shows "(\<forall>e m'. insert_range lt grow poison m xs = Raise e m' \<longrightarrow>
            e = ConstructionFailure \<and> I1 lt (elems m') \<and>
            (\<exists>ys zs. xs = ys @ zs \<and> zs \<noteq> [] \<and> emplace_each lt grow poison m ys = Done () m')) \<and>
         ((\<exists>x \<in> set (take (unused m) xs). poison x) \<longrightarrow>
            insert_range lt grow poison m xs = Raise ConstructionFailure m)"
proof -
  have part1: "e = ConstructionFailure \<and> I1 lt (elems m') \<and>
            (\<exists>ys zs. xs = ys @ zs \<and> zs \<noteq> [] \<and> emplace_each lt grow poison m ys = Done () m')"
    if r: "insert_range lt grow poison m xs = Raise e m'" for e m'
  proof -
    from insert_range_prefix[OF assms, of grow poison xs m' e] r obtain zs where
      e: "e = ConstructionFailure" and z: "zs \<noteq> []" and p: "prefix_done lt grow poison m xs zs m'"
      by blast
    from p z have "\<exists>ys zs. xs = ys @ zs \<and> zs \<noteq> [] \<and> emplace_each lt grow poison m ys = Done () m'"
      unfolding prefix_done_def by blast
    with e prefix_done_I1[OF assms p] show ?thesis by blast
  qed
  have part2: "insert_range lt grow poison m xs = Raise ConstructionFailure m"
    if bad: "\<exists>x \<in> set (take (unused m) xs). poison x"
  proof -
    from bad have "0 < unused m" by (cases "unused m") auto
    from insert_pass_append_fails[OF emplace_while_full_spare[OF this] bad]
    show ?thesis by simp
  qed
  from part1 part2 show ?thesis by blast
qed

theorem insert_range_failure_state_witness:
  "strict_weak_order ((<) :: nat \<Rightarrow> nat \<Rightarrow> bool) \<and> I1 (<) [(5::nat, 50::nat)] \<and>
   insert_range (<) (\<lambda>c. 2 * c) (\<lambda>x. snd x = 99) \<lparr>elems = [(5::nat, 50::nat)], unused = 0\<rparr>
       [(1, 10), (2, 99), (3, 30)]
     = Raise ConstructionFailure \<lparr>elems = [(1, 10), (5, 50)], unused = 0\<rparr> \<and>
   (\<exists>ys zs. [(1::nat, 10::nat), (2, 99), (3, 30)] = ys @ zs \<and> zs \<noteq> [] \<and>
      emplace_each (<) (\<lambda>c. 2 * c) (\<lambda>x. snd x = 99) \<lparr>elems = [(5::nat, 50::nat)], unused = 0\<rparr> ys
        = Done () \<lparr>elems = [(1, 10), (5, 50)], unused = 0\<rparr>) \<and>
   insert_range (<) (\<lambda>c. 2 * c) (\<lambda>x. snd x = 99) \<lparr>elems = [(5::nat, 50::nat)], unused = 3\<rparr>
       [(1, 10), (2, 99), (3, 30)]
     = Raise ConstructionFailure \<lparr>elems = [(5, 50)], unused = 3\<rparr>"
proof -
  have swo: "strict_weak_order ((<) :: nat \<Rightarrow> nat \<Rightarrow> bool)" by (rule swo_less_nat)
  have i0: "I1 (<) (elems \<lparr>elems = [(5::nat, 50::nat)], unused = 0\<rparr>)"
    and i3: "I1 (<) (elems \<lparr>elems = [(5::nat, 50::nat)], unused = 3\<rparr>)"
    by (simp_all add: I1_def)
  have r: "insert_range (<) (\<lambda>c. 2 * c) (\<lambda>x. snd x = 99) \<lparr>elems = [(5::nat, 50::nat)], unused = 0\<rparr>
       [(1, 10), (2, 99), (3, 30)]
     = Raise ConstructionFailure \<lparr>elems = [(1, 10), (5, 50)], unused = 0\<rparr>"
    by code_simp
  have h: "\<exists>x \<in> set (take (unused \<lparr>elems = [(5::nat, 50::nat)], unused = 3\<rparr>)
              [(1::nat, 10::nat), (2, 99), (3, 30)]). snd x = 99"
    by (simp add: numeral_3_eq_3)
  from insert_range_failure_state[OF swo i0, of "\<lambda>c. 2 * c" "\<lambda>x. snd x = 99"
      "[(1, 10), (2, 99), (3, 30)]"] r
  have a: "\<exists>ys zs. [(1::nat, 10::nat), (2, 99), (3, 30)] = ys @ zs \<and> zs \<noteq> [] \<and>
      emplace_each (<) (\<lambda>c. 2 * c) (\<lambda>x. snd x = 99) \<lparr>elems = [(5::nat, 50::nat)], unused = 0\<rparr> ys
        = Done () \<lparr>elems = [(1, 10), (5, 50)], unused = 0\<rparr>"
    by blast
  from insert_range_failure_state[OF swo i3, of "\<lambda>c. 2 * c" "\<lambda>x. snd x = 99"
      "[(1, 10), (2, 99), (3, 30)]"] h
  have b: "insert_range (<) (\<lambda>c. 2 * c) (\<lambda>x. snd x = 99) \<lparr>elems = [(5::nat, 50::nat)], unused = 3\<rparr>
       [(1, 10), (2, 99), (3, 30)]
     = Raise ConstructionFailure \<lparr>elems = [(5, 50)], unused = 3\<rparr>"
    by blast
  from swo i0 r a b show ?thesis by simp
qed

text \<open>
  C9. Each pass of \<^verbatim>\<open>insert(begin, end)\<close> that ends in the recursive call hands on fewer
  input elements than it was given, so it has consumed at least one; a pass that does not
  end in the recursive call ends the whole insertion. Hence the insertion of a range of
  \<open>n\<close> elements is over after \<open>n + 1\<close> passes at most: with that many passes allowed the
  bounded iteration returns, and returns what \<open>insert_range\<close> returns.
\<close>

theorem insert_range_terminates:
  "(\<forall>xs' m'. insert_pass lt grow poison m xs = Done (Some xs') m' \<longrightarrow>
        xs \<noteq> [] \<and> length xs' < length xs) \<and>
   (\<forall>m'. insert_pass lt grow poison m xs = Done None m' \<longrightarrow>
        insert_range lt grow poison m xs = Done () m') \<and>
   insert_range_fuel (Suc (length xs)) lt grow poison m xs
     = Some (insert_range lt grow poison m xs)"
proof -
  have "xs \<noteq> [] \<and> length xs' < length xs"
    if "insert_pass lt grow poison m xs = Done (Some xs') m'" for xs' m'
    using insert_pass_consumes[OF that] by auto
  moreover have "insert_range lt grow poison m xs = Done () m'"
    if "insert_pass lt grow poison m xs = Done None m'" for m'
    using that by simp
  moreover have "insert_range_fuel (Suc (length xs)) lt grow poison m xs
     = Some (insert_range lt grow poison m xs)"
    by (rule insert_range_fuel_enough) simp
  ultimately show ?thesis by blast
qed

theorem insert_range_terminates_witness:
  "insert_pass (<) (\<lambda>c. 2 * c) (\<lambda>x. False) \<lparr>elems = [(1::nat, 0::nat)], unused = 1\<rparr>
       [(1, 1), (1, 2), (1, 3), (2, 5), (1, 7), (0, 0)]
     = Done (Some [(1, 7), (0, 0)]) \<lparr>elems = [(1, 0), (2, 5)], unused = 0\<rparr> \<and>
   length [(1::nat, 7::nat), (0, 0)] < length [(1::nat, 1::nat), (1, 2), (1, 3), (2, 5), (1, 7), (0, 0)] \<and>
   insert_range_fuel (Suc (length [(1::nat, 1::nat), (1, 2), (1, 3), (2, 5), (1, 7), (0, 0)]))
       (<) (\<lambda>c. 2 * c) (\<lambda>x. False) \<lparr>elems = [(1::nat, 0::nat)], unused = 1\<rparr>
       [(1, 1), (1, 2), (1, 3), (2, 5), (1, 7), (0, 0)]
     = Some (insert_range (<) (\<lambda>c. 2 * c) (\<lambda>x. False) \<lparr>elems = [(1::nat, 0::nat)], unused = 1\<rparr>
       [(1, 1), (1, 2), (1, 3), (2, 5), (1, 7), (0, 0)])"
proof -
  have p: "insert_pass (<) (\<lambda>c. 2 * c) (\<lambda>x. False) \<lparr>elems = [(1::nat, 0::nat)], unused = 1\<rparr>
       [(1, 1), (1, 2), (1, 3), (2, 5), (1, 7), (0, 0)]
     = Done (Some [(1, 7), (0, 0)]) \<lparr>elems = [(1, 0), (2, 5)], unused = 0\<rparr>"
    by code_simp
  from insert_range_terminates[of "(<)" "\<lambda>c. 2 * c" "\<lambda>x. False"
      "\<lparr>elems = [(1::nat, 0::nat)], unused = 1\<rparr>" "[(1, 1), (1, 2), (1, 3), (2, 5), (1, 7), (0, 0)]"] p
  show ?thesis by blast
qed

text \<open>
  C6, as stated: when the sorting, merging and removal of duplicates leave the size as it
  was, exactly one element of the input that is left is processed by \<^verbatim>\<open>emplace\<close> before
  the recursive call. Here the batch is \<open>(1, 1)\<close>, the size stays 1, and the loop processes
  three elements, \<open>(1, 2)\<close>, \<open>(1, 3)\<close> and \<open>(2, 5)\<close>, before the recursive call.
\<close>

theorem stuck_batch_exactly_one_counterexample:
  "append_batch (\<lambda>c. 2 * c) (\<lambda>x. False) \<lparr>elems = [(1::nat, 0::nat)], unused = 1\<rparr>
       [(1, 1), (1, 2), (1, 3), (2, 5), (1, 7), (0, 0)]
     = Done [(1, 2), (1, 3), (2, 5), (1, 7), (0, 0)] \<lparr>elems = [(1, 0), (1, 1)], unused = 0\<rparr> \<and>
   merge_batch (<) \<lparr>elems = [(1::nat, 0::nat), (1, 1)], unused = 0\<rparr> 1
     = \<lparr>elems = [(1, 0)], unused = 1\<rparr> \<and>
   insert_pass (<) (\<lambda>c. 2 * c) (\<lambda>x. False) \<lparr>elems = [(1::nat, 0::nat)], unused = 1\<rparr>
       [(1, 1), (1, 2), (1, 3), (2, 5), (1, 7), (0, 0)]
     = Done (Some [(1, 7), (0, 0)]) \<lparr>elems = [(1, 0), (2, 5)], unused = 0\<rparr> \<and>
   [(1::nat, 7::nat), (0, 0)] \<noteq> drop 1 [(1, 2), (1, 3), (2, 5), (1, 7), (0, 0)]"
proof -
  have a: "append_batch (\<lambda>c. 2 * c) (\<lambda>x. False) \<lparr>elems = [(1::nat, 0::nat)], unused = 1\<rparr>
       [(1, 1), (1, 2), (1, 3), (2, 5), (1, 7), (0, 0)]
     = Done [(1, 2), (1, 3), (2, 5), (1, 7), (0, 0)] \<lparr>elems = [(1, 0), (1, 1)], unused = 0\<rparr>"
    by code_simp
  have b: "merge_batch (<) \<lparr>elems = [(1::nat, 0::nat), (1, 1)], unused = 0\<rparr> 1
     = \<lparr>elems = [(1, 0)], unused = 1\<rparr>"
    by code_simp
  have c: "insert_pass (<) (\<lambda>c. 2 * c) (\<lambda>x. False) \<lparr>elems = [(1::nat, 0::nat)], unused = 1\<rparr>
       [(1, 1), (1, 2), (1, 3), (2, 5), (1, 7), (0, 0)]
     = Done (Some [(1, 7), (0, 0)]) \<lparr>elems = [(1, 0), (2, 5)], unused = 0\<rparr>"
    by code_simp
  from a b c show ?thesis by simp
qed

text \<open>
  C6, amended. When the sorting, merging and removal of duplicates leave the size as it
  was, the pass calls \<^verbatim>\<open>emplace\<close> on the elements of the input that is left, one after the
  other, until one of them is inserted or the input ends: the elements whose key has an
  equivalent in the map are passed over, the first whose key has none is inserted, and the
  recursive call gets the elements behind it. So at least one element is processed when
  there is one, and more than one when the first has its key in the map already.
\<close>

theorem stuck_batch_emplaces_until_inserted:
  fixes m :: "('k, 'v) flat_map"
  assumes "strict_weak_order lt" and "I1 lt (elems m)"
  shows "emplace_until_inserted lt grow poison m xs =
           (case dropWhile (\<lambda>x. has_key lt (elems m) (fst x)) xs of
              [] \<Rightarrow> Done [] m
            | y # ys \<Rightarrow>
                if poison y then Raise ConstructionFailure m
                else Done ys \<lparr> elems = ins lt y (elems m),
                               unused = (if unused m = 0
                                         then max (grow (capacity m)) (capacity m + 1)
                                              - (capacity m + 1)
                                         else unused m - 1) \<rparr>) \<and>
         (\<forall>rest m'. emplace_until_inserted lt grow poison m xs = Done rest m' \<longrightarrow> xs \<noteq> [] \<longrightarrow>
              length rest < length xs) \<and>
         (\<forall>m0 xs0 xs1 m1 m2.
              emplace_while_full lt grow poison m0 xs0 = Done xs1 m1 \<and> xs1 \<noteq> [] \<and>
              append_batch grow poison m1 xs1 = Done xs m2 \<and>
              merge_batch lt m2 (size_v m1) = m \<and> size_v m = size_v m1 \<longrightarrow>
              insert_pass lt grow poison m0 xs0 =
                (case emplace_until_inserted lt grow poison m xs of
                   Raise e m4 \<Rightarrow> Raise e m4
                 | Done xs4 m4 \<Rightarrow> Done (Some xs4) m4))"
proof -
  note spec = emplace_until_inserted_spec[OF assms, of grow poison xs]
  have progress: "length rest < length xs"
    if d: "emplace_until_inserted lt grow poison m xs = Done rest m'" and ne: "xs \<noteq> []" for rest m'
  proof (cases "dropWhile (\<lambda>x. has_key lt (elems m) (fst x)) xs")
    case Nil
    with spec d have "rest = []" by simp
    with ne show ?thesis by simp
  next
    case (Cons y ys)
    with spec d have "rest = ys" by (simp split: if_splits)
    moreover have "length (y # ys) \<le> length xs"
      using length_dropWhile_le[of "\<lambda>x. has_key lt (elems m) (fst x)" xs] Cons by simp
    ultimately show ?thesis by simp
  qed
  have pass: "insert_pass lt grow poison m0 xs0 =
                (case emplace_until_inserted lt grow poison m xs of
                   Raise e m4 \<Rightarrow> Raise e m4
                 | Done xs4 m4 \<Rightarrow> Done (Some xs4) m4)"
    if "emplace_while_full lt grow poison m0 xs0 = Done xs1 m1 \<and> xs1 \<noteq> [] \<and>
        append_batch grow poison m1 xs1 = Done xs m2 \<and>
        merge_batch lt m2 (size_v m1) = m \<and> size_v m = size_v m1" for m0 xs0 xs1 m1 m2
    using insert_pass_stuck[of lt grow poison m0 xs0 xs1 m1 xs m2] that by auto
  from spec progress pass show ?thesis by blast
qed

theorem stuck_batch_emplaces_until_inserted_witness:
  "strict_weak_order ((<) :: nat \<Rightarrow> nat \<Rightarrow> bool) \<and> I1 (<) [(1::nat, 0::nat)] \<and>
   dropWhile (\<lambda>x. has_key (<) (elems \<lparr>elems = [(1::nat, 0::nat)], unused = 1\<rparr>) (fst x))
       [(1::nat, 2::nat), (1, 3), (2, 5), (1, 7), (0, 0)] = [(2, 5), (1, 7), (0, 0)] \<and>
   emplace_until_inserted (<) (\<lambda>c. 2 * c) (\<lambda>x. False) \<lparr>elems = [(1::nat, 0::nat)], unused = 1\<rparr>
       [(1, 2), (1, 3), (2, 5), (1, 7), (0, 0)]
     = Done [(1, 7), (0, 0)] \<lparr>elems = [(1, 0), (2, 5)], unused = 0\<rparr> \<and>
   length [(1::nat, 7::nat), (0, 0)] < length [(1::nat, 2::nat), (1, 3), (2, 5), (1, 7), (0, 0)] \<and>
   insert_pass (<) (\<lambda>c. 2 * c) (\<lambda>x. False) \<lparr>elems = [(1::nat, 0::nat)], unused = 1\<rparr>
       [(1, 1), (1, 2), (1, 3), (2, 5), (1, 7), (0, 0)]
     = (case emplace_until_inserted (<) (\<lambda>c. 2 * c) (\<lambda>x. False)
               \<lparr>elems = [(1::nat, 0::nat)], unused = 1\<rparr> [(1, 2), (1, 3), (2, 5), (1, 7), (0, 0)] of
          Raise e m4 \<Rightarrow> Raise e m4
        | Done xs4 m4 \<Rightarrow> Done (Some xs4) m4)"
proof -
  have swo: "strict_weak_order ((<) :: nat \<Rightarrow> nat \<Rightarrow> bool)" by (rule swo_less_nat)
  have i1: "I1 (<) (elems \<lparr>elems = [(1::nat, 0::nat)], unused = 1\<rparr>)"
    by (simp add: I1_def)
  have dw: "dropWhile (\<lambda>x. has_key (<) (elems \<lparr>elems = [(1::nat, 0::nat)], unused = 1\<rparr>) (fst x))
       [(1::nat, 2::nat), (1, 3), (2, 5), (1, 7), (0, 0)] = [(2, 5), (1, 7), (0, 0)]"
    by (simp add: has_key_def equiv_key_def)
  have e: "emplace_until_inserted (<) (\<lambda>c. 2 * c) (\<lambda>x. False) \<lparr>elems = [(1::nat, 0::nat)], unused = 1\<rparr>
       [(1, 2), (1, 3), (2, 5), (1, 7), (0, 0)]
     = Done [(1, 7), (0, 0)] \<lparr>elems = [(1, 0), (2, 5)], unused = 0\<rparr>"
    by code_simp
  have p: "emplace_while_full (<) (\<lambda>c. 2 * c) (\<lambda>x. False) \<lparr>elems = [(1::nat, 0::nat)], unused = 1\<rparr>
       [(1, 1), (1, 2), (1, 3), (2, 5), (1, 7), (0, 0)]
     = Done [(1, 1), (1, 2), (1, 3), (2, 5), (1, 7), (0, 0)] \<lparr>elems = [(1, 0)], unused = 1\<rparr> \<and>
     [(1::nat, 1::nat), (1, 2), (1, 3), (2, 5), (1, 7), (0, 0)] \<noteq> [] \<and>
     append_batch (\<lambda>c. 2 * c) (\<lambda>x. False) \<lparr>elems = [(1::nat, 0::nat)], unused = 1\<rparr>
       [(1, 1), (1, 2), (1, 3), (2, 5), (1, 7), (0, 0)]
     = Done [(1, 2), (1, 3), (2, 5), (1, 7), (0, 0)] \<lparr>elems = [(1, 0), (1, 1)], unused = 0\<rparr> \<and>
     merge_batch (<) \<lparr>elems = [(1::nat, 0::nat), (1, 1)], unused = 0\<rparr>
        (size_v \<lparr>elems = [(1::nat, 0::nat)], unused = 1\<rparr>) = \<lparr>elems = [(1, 0)], unused = 1\<rparr> \<and>
     size_v \<lparr>elems = [(1::nat, 0::nat)], unused = 1\<rparr> = size_v \<lparr>elems = [(1::nat, 0::nat)], unused = 1\<rparr>"
    by code_simp
  note t = stuck_batch_emplaces_until_inserted[OF swo i1, of "\<lambda>c. 2 * c" "\<lambda>x. False"
      "[(1, 2), (1, 3), (2, 5), (1, 7), (0, 0)]"]
  from t e have l: "length [(1::nat, 7::nat), (0, 0)] < length [(1::nat, 2::nat), (1, 3), (2, 5), (1, 7), (0, 0)]"
    by blast
  from t p have q: "insert_pass (<) (\<lambda>c. 2 * c) (\<lambda>x. False) \<lparr>elems = [(1::nat, 0::nat)], unused = 1\<rparr>
       [(1, 1), (1, 2), (1, 3), (2, 5), (1, 7), (0, 0)]
     = (case emplace_until_inserted (<) (\<lambda>c. 2 * c) (\<lambda>x. False)
               \<lparr>elems = [(1::nat, 0::nat)], unused = 1\<rparr> [(1, 2), (1, 3), (2, 5), (1, 7), (0, 0)] of
          Raise e m4 \<Rightarrow> Raise e m4
        | Done xs4 m4 \<Rightarrow> Done (Some xs4) m4)"
    by blast
  from i1 have i1': "I1 (<) [(1::nat, 0::nat)]" by simp
  from swo i1' dw e l q show ?thesis by blast
qed

text \<open>
  C1. Every public mutation (\<^verbatim>\<open>operator[]\<close>, \<^verbatim>\<open>insert\<close> of a value, with a hint, of a range or
  of an initializer list, \<^verbatim>\<open>emplace\<close>, \<^verbatim>\<open>emplace_hint\<close>, \<^verbatim>\<open>erase\<close> of an iterator, of a key
  or of a range, \<^verbatim>\<open>clear\<close>), called on a map that satisfies I1 with iterators of that map,
  leaves a map that satisfies I1, whether it returns or throws: the keys are strictly
  ascending and no two of them are equivalent. So does every sequence of such calls.
\<close>

theorem I1_after_every_mutation:
  fixes m :: "('k, 'v) flat_map"
  assumes "strict_weak_order lt" and "I1 lt (elems m)"
  shows "(valid_mutation m c \<longrightarrow>
            I1 lt (elems (perform lt grow poison dk dv m c)) \<and>
            distinct_keys lt (elems (perform lt grow poison dk dv m c))) \<and>
         (valid_mutations lt grow poison dk dv m cs \<longrightarrow>
            I1 lt (elems (perform_all lt grow poison dk dv m cs)) \<and>
            distinct_keys lt (elems (perform_all lt grow poison dk dv m cs)))"
proof -
  have one: "I1 lt (elems (perform lt grow poison dk dv m c))" if "valid_mutation m c"
    by (rule perform_I1[OF assms that])
  have many: "I1 lt (elems (perform_all lt grow poison dk dv m cs))"
    if "valid_mutations lt grow poison dk dv m cs"
    by (rule perform_all_I1[OF assms that])
  from one many I1_distinct_keys[OF assms(1)] show ?thesis by blast
qed

theorem I1_after_every_mutation_witness:
  "strict_weak_order ((<) :: nat \<Rightarrow> nat \<Rightarrow> bool) \<and> I1 (<) ([] :: (nat \<times> nat) list) \<and>
   valid_mutation \<lparr>elems = ([] :: (nat \<times> nat) list), unused = 0\<rparr> (InsertRange [(3, 1), (1, 2), (3, 3)]) \<and>
   perform (<) (\<lambda>c. 2 * c) (\<lambda>x. snd x = 99) 0 0 \<lparr>elems = [], unused = 0\<rparr>
       (InsertRange [(3::nat, 1::nat), (1, 2), (3, 3)])
     = \<lparr>elems = [(1, 2), (3, 1)], unused = 0\<rparr> \<and>
   valid_mutations (<) (\<lambda>c. 2 * c) (\<lambda>x. snd x = 99) 0 0 \<lparr>elems = ([] :: (nat \<times> nat) list), unused = 0\<rparr>
       [InsertRange [(3, 1), (1, 2), (3, 3)], Subscript 2, EmplaceHint 0 (0, 7), Erase 1,
        InsertList [(9, 9), (8, 99), (7, 7)], EraseKey 3, Insert (5, 5), EraseRange 0 1,
        EmplaceHintDefault 2, InsertHint 1 (4, 4)] \<and>
   perform_all (<) (\<lambda>c. 2 * c) (\<lambda>x. snd x = 99) 0 0 \<lparr>elems = [], unused = 0\<rparr>
       [InsertRange [(3::nat, 1::nat), (1, 2), (3, 3)], Subscript 2, EmplaceHint 0 (0, 7), Erase 1,
        InsertList [(9, 9), (8, 99), (7, 7)], EraseKey 3, Insert (5, 5), EraseRange 0 1,
        EmplaceHintDefault 2, InsertHint 1 (4, 4)]
     = \<lparr>elems = [(0, 0), (2, 0), (4, 4), (5, 5), (9, 9)], unused = 3\<rparr> \<and>
   I1 (<) [(0::nat, 0::nat), (2, 0), (4, 4), (5, 5), (9, 9)] \<and>
   distinct_keys (<) [(0::nat, 0::nat), (2, 0), (4, 4), (5, 5), (9, 9)]"
proof -
  have swo: "strict_weak_order ((<) :: nat \<Rightarrow> nat \<Rightarrow> bool)" by (rule swo_less_nat)
  have i0: "I1 (<) (elems \<lparr>elems = ([] :: (nat \<times> nat) list), unused = 0\<rparr>)"
    by (simp add: I1_def)
  have v1: "valid_mutation \<lparr>elems = ([] :: (nat \<times> nat) list), unused = 0\<rparr>
      (InsertRange [(3, 1), (1, 2), (3, 3)])"
    by simp
  have p1: "perform (<) (\<lambda>c. 2 * c) (\<lambda>x. snd x = 99) 0 0 \<lparr>elems = [], unused = 0\<rparr>
       (InsertRange [(3::nat, 1::nat), (1, 2), (3, 3)])
     = \<lparr>elems = [(1, 2), (3, 1)], unused = 0\<rparr>"
    by code_simp
  have vs: "valid_mutations (<) (\<lambda>c. 2 * c) (\<lambda>x. snd x = 99) 0 0
       \<lparr>elems = ([] :: (nat \<times> nat) list), unused = 0\<rparr>
       [InsertRange [(3, 1), (1, 2), (3, 3)], Subscript 2, EmplaceHint 0 (0, 7), Erase 1,
        InsertList [(9, 9), (8, 99), (7, 7)], EraseKey 3, Insert (5, 5), EraseRange 0 1,
        EmplaceHintDefault 2, InsertHint 1 (4, 4)]"
    by code_simp
  have ps: "perform_all (<) (\<lambda>c. 2 * c) (\<lambda>x. snd x = 99) 0 0 \<lparr>elems = [], unused = 0\<rparr>
       [InsertRange [(3::nat, 1::nat), (1, 2), (3, 3)], Subscript 2, EmplaceHint 0 (0, 7), Erase 1,
        InsertList [(9, 9), (8, 99), (7, 7)], EraseKey 3, Insert (5, 5), EraseRange 0 1,
        EmplaceHintDefault 2, InsertHint 1 (4, 4)]
     = \<lparr>elems = [(0, 0), (2, 0), (4, 4), (5, 5), (9, 9)], unused = 3\<rparr>"
    by code_simp
  from I1_after_every_mutation[OF swo i0, of "InsertRange [(3, 1), (1, 2), (3, 3)]"
      "\<lambda>c. 2 * c" "\<lambda>x. snd x = 99" 0 0
      "[InsertRange [(3, 1), (1, 2), (3, 3)], Subscript 2, EmplaceHint 0 (0, 7), Erase 1,
        InsertList [(9, 9), (8, 99), (7, 7)], EraseKey 3, Insert (5, 5), EraseRange 0 1,
        EmplaceHintDefault 2, InsertHint 1 (4, 4)]"] v1 vs
  have "I1 (<) (elems (perform_all (<) (\<lambda>c. 2 * c) (\<lambda>x. snd x = 99) 0 0 \<lparr>elems = [], unused = 0\<rparr>
       [InsertRange [(3::nat, 1::nat), (1, 2), (3, 3)], Subscript 2, EmplaceHint 0 (0, 7), Erase 1,
        InsertList [(9, 9), (8, 99), (7, 7)], EraseKey 3, Insert (5, 5), EraseRange 0 1,
        EmplaceHintDefault 2, InsertHint 1 (4, 4)])) \<and>
     distinct_keys (<) (elems (perform_all (<) (\<lambda>c. 2 * c) (\<lambda>x. snd x = 99) 0 0 \<lparr>elems = [], unused = 0\<rparr>
       [InsertRange [(3::nat, 1::nat), (1, 2), (3, 3)], Subscript 2, EmplaceHint 0 (0, 7), Erase 1,
        InsertList [(9, 9), (8, 99), (7, 7)], EraseKey 3, Insert (5, 5), EraseRange 0 1,
        EmplaceHintDefault 2, InsertHint 1 (4, 4)]))"
    by blast
  then have fin: "I1 (<) [(0::nat, 0::nat), (2, 0), (4, 4), (5, 5), (9, 9)] \<and>
     distinct_keys (<) [(0::nat, 0::nat), (2, 0), (4, 4), (5, 5), (9, 9)]"
    unfolding ps by simp
  from i0 have i0': "I1 (<) ([] :: (nat \<times> nat) list)" by simp
  from swo i0' v1 p1 vs ps fin show ?thesis by blast
qed

text \<open>
  C4. The traversal of a map from \<^verbatim>\<open>rbegin()\<close> to \<^verbatim>\<open>rend()\<close> through the const interface:
  \<^verbatim>\<open>rend() const\<close> returns \<^verbatim>\<open>std::rbegin(m_data)\<close>, the two iterators are equal and the
  loop visits no entry, where the mutable overloads and \<^verbatim>\<open>crbegin()\<close>, \<^verbatim>\<open>crend()\<close> visit
  the entries in descending order of the keys.
\<close>

theorem const_reverse_traversal_visits_nothing:
  "reverse_traverse \<lparr>elems = [(1::nat, 10::nat), (2, 20)], unused = 0\<rparr>
       (rbegin_const \<lparr>elems = [(1::nat, 10::nat), (2, 20)], unused = 0\<rparr>)
       (rend_const \<lparr>elems = [(1::nat, 10::nat), (2, 20)], unused = 0\<rparr>) = [] \<and>
   reverse_traverse \<lparr>elems = [(1::nat, 10::nat), (2, 20)], unused = 0\<rparr>
       (rbegin \<lparr>elems = [(1::nat, 10::nat), (2, 20)], unused = 0\<rparr>)
       (rend \<lparr>elems = [(1::nat, 10::nat), (2, 20)], unused = 0\<rparr>) = [(2, 20), (1, 10)] \<and>
   reverse_traverse \<lparr>elems = [(1::nat, 10::nat), (2, 20)], unused = 0\<rparr>
       (crbegin \<lparr>elems = [(1::nat, 10::nat), (2, 20)], unused = 0\<rparr>)
       (crend \<lparr>elems = [(1::nat, 10::nat), (2, 20)], unused = 0\<rparr>) = [(2, 20), (1, 10)] \<and>
   traverse \<lparr>elems = [(1::nat, 10::nat), (2, 20)], unused = 0\<rparr>
       (begin_const \<lparr>elems = [(1::nat, 10::nat), (2, 20)], unused = 0\<rparr>)
       (end_const \<lparr>elems = [(1::nat, 10::nat), (2, 20)], unused = 0\<rparr>) = [(1, 10), (2, 20)]"
  by code_simp

end
